theory Spec2Isabelle
  imports Main "HOL-Library.Sublist"
begin

section \<open>Texts\<close>

text \<open>
  A Python \<open>str\<close> is modelled as a \<^typ>\<open>string\<close> holding its UTF-8 bytes. Every
  character the program compares against (backtick, space, newline, carriage return,
  apostrophe, the ASCII letters) is a single byte that occurs in no multi-byte sequence,
  so searching, replacing and stripping act on the bytes as they act on the code points.
\<close>

definition fence :: string where
  "fence = ''```''"

definition apostrophe :: char where
  "apostrophe = CHR 0x27"

text \<open>The character class \<open>[a-zA-Z]\<close> of a \<open>str\<close> pattern compiled without flags.\<close>

definition is_ascii_letter :: "char \<Rightarrow> bool" where
  "is_ascii_letter c =
     ((of_char c :: nat) \<in> {97..122} \<or> (of_char c :: nat) \<in> {65..90})"

text \<open>
  \<open>re.sub(r"```[a-zA-Z]*", "", s)\<close>: the leftmost match is removed and the scan goes on
  after it. A match is three backticks and the longest run of letters behind them (the
  star is greedy and nothing follows it in the pattern), so it is never empty.
\<close>

function re_sub_fence :: "string \<Rightarrow> string" where
  "re_sub_fence [] = []"
| "re_sub_fence (c # cs) =
     (if prefix fence (c # cs)
      then re_sub_fence (dropWhile is_ascii_letter (drop (length fence) (c # cs)))
      else c # re_sub_fence cs)"
  by pat_completeness auto
termination
  by (relation "measure length")
     (auto simp: fence_def intro: le_less_trans [OF length_dropWhile_le])

text \<open>
  \<open>s.replace(old, new)\<close>: every occurrence of \<open>old\<close> found scanning from the left,
  without overlap, is replaced. With an empty \<open>old\<close> Python puts \<open>new\<close> before every
  character and at the end.
\<close>

function str_replace :: "string \<Rightarrow> string \<Rightarrow> string \<Rightarrow> string" where
  "str_replace old new [] = (if old = [] then new else [])"
| "str_replace old new (c # cs) =
     (if old = [] then new @ c # str_replace old new cs
      else if prefix old (c # cs)
      then new @ str_replace old new (drop (length old) (c # cs))
      else c # str_replace old new cs)"
  by pat_completeness auto
termination
  by (relation "measure (\<lambda>(old, new, s). length s)") auto

text \<open>\<open>s.strip(chars)\<close>: the characters of \<open>chars\<close> are dropped from both ends.\<close>

definition str_strip :: "string \<Rightarrow> string \<Rightarrow> string" where
  "str_strip chars s =
     rev (dropWhile (\<lambda>c. c \<in> set chars) (rev (dropWhile (\<lambda>c. c \<in> set chars) s)))"

text \<open>\<open>pat in s\<close>.\<close>

fun str_contains :: "string \<Rightarrow> string \<Rightarrow> bool" where
  "str_contains pat [] = (pat = [])"
| "str_contains pat (c # cs) = (prefix pat (c # cs) \<or> str_contains pat cs)"

text \<open>\<open>sep.join(xs)\<close>.\<close>

fun str_join :: "string \<Rightarrow> string list \<Rightarrow> string" where
  "str_join sep [] = []"
| "str_join sep [x] = x"
| "str_join sep (x # y # ys) = x @ sep @ str_join sep (y # ys)"


section \<open>Values decoded from JSON\<close>

text \<open>
  What \<open>response.json()\<close> can return. \<open>JObj\<close> lists the items of a \<open>dict\<close>, whose keys
  are strings; a float is kept as its literal, since nothing here computes with it.
\<close>

datatype json =
    JNull
  | JBool bool
  | JInt int
  | JFloat string
  | JStr string
  | JArr "json list"
  | JObj "(string \<times> json) list"

datatype exn = ConnectionError | JSONDecodeError | KeyError | IndexError | TypeError

text \<open>\<open>v[k]\<close> with a string key: only a \<open>dict\<close> accepts it.\<close>

fun subscript_key :: "string \<Rightarrow> json \<Rightarrow> exn + json" where
  "subscript_key k (JObj kvs) =
     (case map_of kvs k of None \<Rightarrow> Inl KeyError | Some v \<Rightarrow> Inr v)"
| "subscript_key k _ = Inl TypeError"

text \<open>The first code point of a UTF-8 text: a lead byte and its continuation bytes.\<close>

definition first_char :: "string \<Rightarrow> string" where
  "first_char s = hd s # takeWhile (\<lambda>c. (of_char c :: nat) \<in> {128..191}) (tl s)"

text \<open>
  \<open>v[0]\<close>: the first element of a list, the first character of a string, a \<open>KeyError\<close>
  on a \<open>dict\<close> (its keys are strings), a \<open>TypeError\<close> on anything else.
\<close>

fun subscript_0 :: "json \<Rightarrow> exn + json" where
  "subscript_0 (JArr xs) = (case xs of [] \<Rightarrow> Inl IndexError | x # _ \<Rightarrow> Inr x)"
| "subscript_0 (JStr s) = (if s = [] then Inl IndexError else Inr (JStr (first_char s)))"
| "subscript_0 (JObj kvs) = Inl KeyError"
| "subscript_0 _ = Inl TypeError"

definition and_then :: "exn + 'a \<Rightarrow> ('a \<Rightarrow> exn + 'b) \<Rightarrow> exn + 'b" where
  "and_then r f = (case r of Inl e \<Rightarrow> Inl e | Inr v \<Rightarrow> f v)"

text \<open>\<open>res["candidates"][0]["content"]["parts"][0]["text"]\<close>, left to right.\<close>

definition extract_text :: "json \<Rightarrow> exn + json" where
  "extract_text res =
     and_then (subscript_key ''candidates'' res) (\<lambda>a.
     and_then (subscript_0 a) (\<lambda>b.
     and_then (subscript_key ''content'' b) (\<lambda>c.
     and_then (subscript_key ''parts'' c) (\<lambda>d.
     and_then (subscript_0 d) (\<lambda>e.
     subscript_key ''text'' e)))))"

section \<open>The sanitizer\<close>

definition strip_chars :: string where
  "strip_chars = '' \<newline>'' @ [CHR 0x0D] @ ''`''"

text \<open>
  \<open>clean_sql\<close> (lines 44 to 50). Its argument is whatever the response held in the text
  field: \<open>None\<close> gives the empty string, a string goes through lines 48 to 50
  (\<open>clean_text\<close>), and any other value makes \<open>re.sub\<close> raise a \<open>TypeError\<close>.
\<close>

definition clean_text :: "string \<Rightarrow> string" where
  "clean_text sql_text =
     str_strip strip_chars (str_replace fence [] (re_sub_fence sql_text))"

fun clean_sql :: "json \<Rightarrow> exn + string" where
  "clean_sql JNull = Inr []"
| "clean_sql (JStr sql_text) = Inr (clean_text sql_text)"
| "clean_sql _ = Inl TypeError"

section \<open>The world around the program\<close>

text \<open>
  A result set as far as the program looks at it: the columns with their names and
  whether their dtype is numeric, and the rows. \<open>pd.DataFrame()\<close> has neither.
\<close>

record dataframe =
  columns :: "(string \<times> bool) list"
  rows :: "string list list"

definition empty_dataframe :: dataframe where
  "empty_dataframe = \<lparr>columns = [], rows = []\<rparr>"

text \<open>\<open>df.empty\<close>: some axis has length zero.\<close>

definition df_empty :: "dataframe \<Rightarrow> bool" where
  "df_empty df = (rows df = [] \<or> columns df = [])"

definition df_head :: "nat \<Rightarrow> dataframe \<Rightarrow> dataframe" where
  "df_head n df = df\<lparr>rows := take n (rows df)\<rparr>"

text \<open>\<open>df.select_dtypes(include="number").columns\<close>.\<close>

definition num_cols :: "dataframe \<Rightarrow> string list" where
  "num_cols df = map fst (filter snd (columns df))"

text \<open>
  What \<open>requests.post\<close> does: it raises when the request cannot be carried out, or it
  returns a response with a status code and a body. The body is given as the value it
  decodes to, if it is JSON at all.
\<close>

datatype http_result = ConnFail | Response nat "json option"

text \<open>
  The parts the program does not own; loading and joining the files (lines 20 to 41)
  is behind them. The completion service and the engine may answer
  the same text differently at different times, so both are indexed by the number of
  calls made before. \<open>max_date\<close> is the text of \<open>max_date.date()\<close>, and \<open>df_to_csv\<close> is
  \<open>to_csv(index=False)\<close>.
\<close>

record env =
  requests_post :: "nat \<Rightarrow> string \<Rightarrow> http_result"
  duckdb_execute :: "nat \<Rightarrow> string \<Rightarrow> string + dataframe"
  max_date :: string
  df_to_csv :: "dataframe \<Rightarrow> string"

text \<open>One entry of \<open>st.session_state.history\<close>: the key \<open>user\<close> and, once set, \<open>summary\<close>.\<close>

record turn =
  user :: string
  summary :: "json option"

text \<open>The calls to the page, in the order they are made.\<close>

datatype ui =
    StError string
  | StWarning string
  | StSubheader string
  | StCode string
  | StWrite json
  | StDataframe dataframe
  | StPlotlyChart string string
  | StSpinner string

text \<open>
  The session: the history, and three logs that the program only ever appends to, the
  page calls, the prompts sent to the completion service and the queries given to the
  engine.
\<close>

record state =
  history :: "turn list"
  page :: "ui list"
  prompts :: "string list"
  queries :: "string list"

definition emit :: "ui \<Rightarrow> state \<Rightarrow> state" where
  "emit e s = s\<lparr>page := page s @ [e]\<rparr>"

section \<open>The completion client and its callers\<close>

text \<open>
  \<open>gemini_call\<close> (lines 52 to 56). Nothing is caught here: a failed request raises out of
  \<open>requests.post\<close>, a body that is not JSON raises out of \<open>response.json()\<close>, and the
  status code is never looked at.
\<close>

definition gemini_call :: "env \<Rightarrow> string \<Rightarrow> state \<Rightarrow> (exn + json) \<times> state" where
  "gemini_call e prompt s =
     (let s' = s\<lparr>prompts := prompts s @ [prompt]\<rparr> in
      case requests_post e (length (prompts s)) prompt of
        ConnFail \<Rightarrow> (Inl ConnectionError, s')
      | Response status body \<Rightarrow>
          (case body of
             None \<Rightarrow> (Inl JSONDecodeError, s')
           | Some res \<Rightarrow> (Inr res, s')))"

definition schema :: string where
  "schema = ''['order_id','order_status','order_purchase_timestamp','price','fre'' @
     ''ight_value','product_id','product_category_name','payment_type','pay'' @
     ''ment_value','customer_id','customer_state','seller_id']''"

definition generate_prompt :: "string \<Rightarrow> string \<Rightarrow> string" where
  "generate_prompt user_query history_text =
     ''\<newline>You are a data analyst writing SQL for DuckDB (PostgreSQL-like syntax).\<newline>'' @
     ''Use CURRENT_DATE and INTERVAL for date arithmetic '' @
     ''(e.g., CURRENT_DATE - INTERVAL 6 MONTH).\<newline>'' @
     ''Do not use STRFTIME or DATE('now').\<newline>'' @
     ''Work on a table called olist with columns '' @ schema @ ''.\<newline>'' @
     ''User conversation so far:\<newline>'' @ history_text @ ''\<newline>'' @
     ''Now write only the SQL query (no explanations) to answer:\<newline>'' @
     ''User: '' @ user_query @ ''\<newline>SQL:\<newline>''"

text \<open>
  \<open>generate_sql\<close> (lines 58 to 79). The call to the service stands before the \<open>try\<close>, so
  what it raises leaves the function; the \<open>try\<close> covers the extraction and the cleaning.
  The result is the SQL text, or \<open>None\<close>.
\<close>

definition generate_sql ::
  "env \<Rightarrow> string \<Rightarrow> string \<Rightarrow> state \<Rightarrow> (exn + string option) \<times> state" where
  "generate_sql e user_query history_text s =
     (case gemini_call e (generate_prompt user_query history_text) s of
        (Inl x, s1) \<Rightarrow> (Inl x, s1)
      | (Inr res, s1) \<Rightarrow>
          (case and_then (extract_text res) clean_sql of
             Inr sql \<Rightarrow> (Inr (Some sql), s1)
           | Inl _ \<Rightarrow>
               (Inr None,
                emit (StWrite res) (emit (StError ''Gemini could not generate SQL.'') s1))))"

text \<open>The dash in the prompt of \<open>explain_results\<close> is U+2013, three bytes in UTF-8.\<close>

definition explain_prompt :: "string \<Rightarrow> string \<Rightarrow> string" where
  "explain_prompt user_query csv =
     ''Summarize these results in 2'' @ [CHR 0xE2, CHR 0x80, CHR 0x93] @
     ''3 short business insights for the question: '' @ user_query @
     ''\<newline>\<newline>'' @ csv"

text \<open>
  \<open>explain_results\<close> (lines 81 to 88) returns the text field as it is, whatever its
  type, or the fallback sentence.
\<close>

definition explain_results ::
  "env \<Rightarrow> dataframe \<Rightarrow> string \<Rightarrow> state \<Rightarrow> (exn + json) \<times> state" where
  "explain_results e df user_query s =
     (case gemini_call e (explain_prompt user_query (df_to_csv e (df_head 10 df))) s of
        (Inl x, s1) \<Rightarrow> (Inl x, s1)
      | (Inr res, s1) \<Rightarrow>
          (case extract_text res of
             Inr text \<Rightarrow> (Inr text, s1)
           | Inl _ \<Rightarrow> (Inr (JStr ''Could not generate summary.''), s1)))"

section \<open>The substitutions\<close>

definition placeholder :: string where
  "placeholder = ''CURRENT_DATE''"

text \<open>\<open>f"DATE '{max_date.date()}'"\<close>.\<close>

definition date_literal :: "string \<Rightarrow> string" where
  "date_literal d = ''DATE '' @ apostrophe # d @ [apostrophe]"

text \<open>The substitution of lines 102 and 140, for the date text \<open>d\<close>.\<close>

definition date_sub :: "string \<Rightarrow> string \<Rightarrow> string" where
  "date_sub d sql = str_replace placeholder (date_literal d) sql"

text \<open>\<open>category_map\<close> (lines 127 to 134), in the order the dictionary is written.\<close>

definition category_map :: "(string \<times> string) list" where
  "category_map =
     [(''electronics'', ''eletronicos''),
      (''furniture'', ''moveis_decoracao''),
      (''fashion'', ''fashion_bolsas_e_acessorios''),
      (''health_beauty'', ''beleza_saude''),
      (''toys'', ''brinquedos''),
      (''books'', ''livros_tecnicos'')]"

definition quoted :: "string \<Rightarrow> string" where
  "quoted t = apostrophe # t @ [apostrophe]"

text \<open>The loop of lines 135 and 136: one \<open>replace\<close> per entry, each on the result of the last.\<close>

definition category_sub :: "string \<Rightarrow> string" where
  "category_sub sql =
     fold (\<lambda>(eng, por) q. str_replace (quoted eng) (quoted por) q) category_map sql"

section \<open>The repair step\<close>

definition fix_prompt :: "string \<Rightarrow> string \<Rightarrow> string" where
  "fix_prompt original_sql error_message =
     ''The following SQL query failed in DuckDB:\<newline>'' @ original_sql @
     ''\<newline>Error: '' @ error_message @
     ''\<newline>Please correct it. Use CURRENT_DATE and INTERVAL syntax where necessary.'' @
     ''\<newline>Only return valid SQL.\<newline>''"

text \<open>
  \<open>fix_sql\<close> (lines 90 to 105). As in \<open>generate_sql\<close> the call stands before the \<open>try\<close>.
  The cleaned text gets the date substitution and nothing else.
\<close>

definition fix_sql ::
  "env \<Rightarrow> string \<Rightarrow> string \<Rightarrow> state \<Rightarrow> (exn + string option) \<times> state" where
  "fix_sql e original_sql error_message s =
     (case gemini_call e (fix_prompt original_sql error_message) s of
        (Inl x, s1) \<Rightarrow> (Inl x, s1)
      | (Inr res, s1) \<Rightarrow>
          (case and_then (extract_text res) clean_sql of
             Inr fixed_sql \<Rightarrow> (Inr (Some (date_sub (max_date e) fixed_sql)), s1)
           | Inl _ \<Rightarrow> (Inr None, s1)))"

section \<open>One turn\<close>

text \<open>\<open>con.execute(sql).df()\<close>: the engine answers with an error text or a result set.\<close>

definition execute :: "env \<Rightarrow> string \<Rightarrow> state \<Rightarrow> (string + dataframe) \<times> state" where
  "execute e sql s =
     (duckdb_execute e (length (queries s)) sql, s\<lparr>queries := queries s @ [sql]\<rparr>)"

text \<open>The truth value of a \<open>str\<close> or \<open>None\<close>: false for \<open>None\<close> and for the empty string.\<close>

fun truthy :: "string option \<Rightarrow> bool" where
  "truthy None = False"
| "truthy (Some t) = (t \<noteq> [])"

text \<open>
  Lines 126 to 154: both substitutions, the first execution and, if it raises, the
  repair. The date substitution is inside the \<open>try\<close> and rebinds \<open>sql_query\<close> before the
  engine is called, so \<open>fix_sql\<close> receives the text that was executed. The result is the
  value bound to \<open>result\<close>, or the exception that left \<open>fix_sql\<close>.
\<close>

definition execute_with_repair ::
  "env \<Rightarrow> string \<Rightarrow> state \<Rightarrow> (exn + dataframe) \<times> state" where
  "execute_with_repair e sql_query s =
     (let sql_query = date_sub (max_date e) (category_sub sql_query) in
      case execute e sql_query s of
        (Inr result, s1) \<Rightarrow> (Inr result, s1)
      | (Inl err, s1) \<Rightarrow>
          (case fix_sql e sql_query err
                  (emit (StSpinner ''Auto-correcting SQL...'')
                     (emit (StWarning (''SQL failed: '' @ err)) s1)) of
             (Inl x, s2) \<Rightarrow> (Inl x, s2)
           | (Inr fixed_sql, s2) \<Rightarrow>
               if truthy fixed_sql then
                 (case execute e (the fixed_sql) (emit (StCode (the fixed_sql)) s2) of
                    (Inr result, s3) \<Rightarrow> (Inr result, s3)
                  | (Inl err2, s3) \<Rightarrow>
                      (Inr empty_dataframe,
                       emit (StError (''Still invalid after correction: '' @ err2)) s3))
               else (Inr empty_dataframe, s2)))"

text \<open>\<open>st.session_state.history[-1]["summary"] = summary\<close>.\<close>

definition set_last_summary :: "json \<Rightarrow> state \<Rightarrow> (exn + unit) \<times> state" where
  "set_last_summary v s =
     (if history s = [] then (Inl IndexError, s)
      else (Inr (),
            s\<lparr>history := butlast (history s) @ [(last (history s))\<lparr>summary := Some v\<rparr>]\<rparr>))"

text \<open>Lines 156 to 173: table, chart and summary for a result that is not empty.\<close>

definition show_result ::
  "env \<Rightarrow> dataframe \<Rightarrow> string \<Rightarrow> state \<Rightarrow> (exn + unit) \<times> state" where
  "show_result e result user_query s =
     (if \<not> df_empty result then
        (let s1 = emit (StDataframe (df_head 20 result)) s;
             s2 = (if length (num_cols result) \<ge> 1
                   then emit (StPlotlyChart (fst (hd (columns result))) (hd (num_cols result))) s1
                   else s1)
         in case explain_results e result user_query
                   (emit (StSpinner ''Summarizing insights...'') s2) of
              (Inl x, s3) \<Rightarrow> (Inl x, s3)
            | (Inr insight, s3) \<Rightarrow>
                set_last_summary insight
                  (emit (StWrite insight) (emit (StWrite (JStr ''**Insight Summary:**'')) s3)))
      else (Inr (), emit (StWarning ''No data returned for this query.'') s))"

text \<open>
  The block under \<open>if run_btn and user_query\<close> (lines 115 to 175). The result is
  \<open>Inr ()\<close> when the block runs to its end and \<open>Inl\<close> the exception that left it; the
  state is the session as it stands then.
\<close>

definition run_analysis ::
  "env \<Rightarrow> bool \<Rightarrow> string \<Rightarrow> state \<Rightarrow> (exn + unit) \<times> state" where
  "run_analysis e run_btn user_query s =
     (if run_btn \<and> user_query \<noteq> [] then
        (let s0 = s\<lparr>history := history s @ [\<lparr>user = user_query, summary = None\<rparr>]\<rparr>;
             history_text =
               str_join ''\<newline>'' (map (\<lambda>h. ''User: '' @ user h) (butlast (history s0)))
         in case generate_sql e user_query history_text
                   (emit (StSpinner ''Generating SQL...'') s0) of
              (Inl x, s1) \<Rightarrow> (Inl x, s1)
            | (Inr sql_query, s1) \<Rightarrow>
                if truthy sql_query then
                  (case execute_with_repair e (the sql_query)
                          (emit (StCode (the sql_query))
                             (emit (StSubheader ''Generated SQL'') s1)) of
                     (Inl x, s2) \<Rightarrow> (Inl x, s2)
                   | (Inr result, s2) \<Rightarrow> show_result e result user_query s2)
                else
                  (Inr (), emit (StWarning ''Gemini could not generate SQL for that query.'') s1))
      else (Inr (), s))"

text \<open>
  A session: the script runs once for every interaction, the history outlives each run,
  and an exception ends the run it is raised in, not the session. The sidebar at the end
  of the script (lines 179 to 183) only reads the history and is left out.
\<close>

fun run_session :: "env \<Rightarrow> (bool \<times> string) list \<Rightarrow> state \<Rightarrow> state" where
  "run_session e [] s = s"
| "run_session e ((run_btn, user_query) # rest) s =
     run_session e rest (snd (run_analysis e run_btn user_query s))"

section \<open>A text cut at its apostrophes\<close>

text \<open>
  The category substitution only ever replaces what stands between two neighbouring
  apostrophes, so its effect is described on the pieces between the apostrophes of
  the query. These three functions are used in the proofs only. \<open>quote_join\<close> puts an
  apostrophe in front of every piece; \<open>swap_pieces a b\<close> is what replacing \<open>'a'\<close> by
  \<open>'b'\<close> does to the pieces, where a match uses up the apostrophe that opens the next
  piece; \<open>twice_running x\<close> says that \<open>'x'x'\<close> occurs.
\<close>

fun quote_join :: "string list \<Rightarrow> string" where
  "quote_join [] = []"
| "quote_join (c # cs) = apostrophe # c @ quote_join cs"

fun swap_pieces :: "string \<Rightarrow> string \<Rightarrow> string list \<Rightarrow> string list" where
  "swap_pieces a b (c # c' # cs) =
     (if c = a then b # c' # swap_pieces a b cs else c # swap_pieces a b (c' # cs))"
| "swap_pieces a b [c] = [c]"
| "swap_pieces a b [] = []"

fun twice_running :: "string \<Rightarrow> string list \<Rightarrow> bool" where
  "twice_running x (c # c' # cs) =
     ((c = x \<and> c' = x \<and> cs \<noteq> []) \<or> twice_running x (c' # cs))"
| "twice_running x [c] = False"
| "twice_running x [] = False"

section \<open>Sessions to run the model on\<close>

text \<open>
  A world that answers from two scripts: the \<open>n\<close>-th request to the completion service
  gets the \<open>n\<close>-th entry of the first list (and no connection once the list is used up),
  the \<open>n\<close>-th query the \<open>n\<close>-th entry of the second (and an error after that). The data
  ends on 2018-09-03.
\<close>

definition scripted :: "http_result list \<Rightarrow> (string + dataframe) list \<Rightarrow> env" where
  "scripted answers results =
     \<lparr>requests_post = (\<lambda>n prompt. if n < length answers then answers ! n else ConnFail),
      duckdb_execute = (\<lambda>n sql. if n < length results then results ! n
                                 else Inl ''Catalog Error''),
      max_date = ''2018-09-03'',
      df_to_csv = (\<lambda>df. [])\<rparr>"

text \<open>A response of the shape the program expects, with status 200.\<close>

definition answer :: "json \<Rightarrow> http_result" where
  "answer text =
     Response 200 (Some (JObj [(''candidates'',
       JArr [JObj [(''content'', JObj [(''parts'', JArr [JObj [(''text'', text)]])])]])]))"

definition start :: state where
  "start = \<lparr>history = [], page = [], prompts = [], queries = []\<rparr>"

text \<open>
  \<open>both_fail\<close>: the generated and the repaired query both raise in the engine.
  \<open>no_rows\<close>: the generated query runs and returns no row. \<open>one_row\<close>: it returns one row
  and the service then writes a summary. \<open>repair_world\<close>: the generated query, fenced and
  with a category token and the date placeholder, raises; the repaired one, with the same
  token and placeholder, runs, and a third request would get a query without either.
  \<open>offline\<close>: no connection. \<open>garbled\<close>: a body that is not
  JSON. \<open>quota\<close>: every request gets a JSON error body with status 429 and none of the
  expected fields.
\<close>

definition both_fail :: env where
  "both_fail =
     scripted [answer (JStr ''SELECT nope FROM olist''), answer (JStr ''SELECT nada FROM olist'')]
              [Inl ''Binder Error'', Inl ''Binder Error'']"

definition no_rows :: env where
  "no_rows =
     scripted [answer (JStr ''SELECT price FROM olist WHERE 1 = 0'')]
              [Inr \<lparr>columns = [(''price'', True)], rows = []\<rparr>]"

definition one_row :: env where
  "one_row =
     scripted [answer (JStr ''SELECT count(*) AS n FROM olist''), answer (JStr ''One row.'')]
              [Inr \<lparr>columns = [(''n'', True)], rows = [[''7'']]\<rparr>]"

definition repair_world :: env where
  "repair_world =
     scripted
       [answer (JStr ''```sql\<newline>SELECT n FROM olist WHERE c = 'toys' AND d < CURRENT_DATE;\<newline>```''),
        answer (JStr ''SELECT 1 FROM olist WHERE c = 'toys' AND d < CURRENT_DATE;''),
        answer (JStr ''SELECT 1 FROM olist'')]
       [Inl ''Binder Error'', Inr \<lparr>columns = [(''1'', True)], rows = []\<rparr>]"

definition offline :: env where
  "offline = scripted [] []"

definition garbled :: env where
  "garbled = scripted [Response 502 None] []"

definition quota :: env where
  "quota =
     \<lparr>requests_post =
        (\<lambda>n prompt. Response 429 (Some (JObj [(''error'', JObj [(''code'', JInt 429)])]))),
      duckdb_execute = (\<lambda>n sql. Inl ''Catalog Error''),
      max_date = ''2018-09-03'',
      df_to_csv = (\<lambda>df. [])\<rparr>"

section \<open>Facts about the text operations\<close>

lemma str_contains_sublist: "str_contains pat s \<longleftrightarrow> sublist pat s"
  by (induction s) (auto simp: sublist_Cons_right)

lemma re_sub_fence_no_fence: "\<not> sublist fence (re_sub_fence s)"
proof (induction s rule: re_sub_fence.induct)
  case 1
  show ?case by (simp add: fence_def)
next
  case (2 c cs)
  show ?case
  proof (cases "prefix fence (c # cs)")
    case True
    with 2 show ?thesis by simp
  next
    case False
    have "\<not> prefix fence (c # re_sub_fence cs)"
    proof
      assume p: "prefix fence (c # re_sub_fence cs)"
      then have c: "c = CHR ''`''" and p2: "prefix ''``'' (re_sub_fence cs)"
        by (auto simp: fence_def)
      show False
      proof (cases cs)
        case Nil
        with p2 show False by simp
      next
        case (Cons d ds)
        show False
        proof (cases "d = CHR ''`''")
          case dq: True
          show False
          proof (cases ds)
            case Nil
            with p2 Cons dq show False by (simp add: fence_def)
          next
            case (Cons x xs)
            with False c dq \<open>cs = d # ds\<close> have "x \<noteq> CHR ''`''"
              by (auto simp: fence_def)
            with p2 Cons dq \<open>cs = d # ds\<close> show False
              by (simp add: fence_def)
          qed
        next
          case False
          with p2 Cons show False by (simp add: fence_def)
        qed
      qed
    qed
    with 2 False show ?thesis by (simp add: sublist_Cons_right)
  qed
qed

lemma re_sub_fence_id: "\<not> sublist fence s \<Longrightarrow> re_sub_fence s = s"
  by (induction s) (auto simp: sublist_Cons_right)


lemma str_replace_id: "old \<noteq> [] \<Longrightarrow> \<not> sublist old s \<Longrightarrow> str_replace old new s = s"
  by (induction s) (auto simp: sublist_Cons_right)

lemma str_strip_decomp:
  "\<exists>a b. s = a @ str_strip chars s @ b"
proof -
  let ?P = "\<lambda>c. c \<in> set chars"
  let ?t = "dropWhile ?P s"
  have "rev ?t = takeWhile ?P (rev ?t) @ dropWhile ?P (rev ?t)" by simp
  then have "?t = str_strip chars s @ rev (takeWhile ?P (rev ?t))"
    unfolding str_strip_def by (metis rev_append rev_rev_ident)
  moreover have "s = takeWhile ?P s @ ?t" by simp
  ultimately have "s = takeWhile ?P s @ str_strip chars s @ rev (takeWhile ?P (rev ?t))"
    by simp
  then show ?thesis by blast
qed

lemma str_strip_sublist: "sublist (str_strip chars s) s"
  using str_strip_decomp [of s chars] unfolding sublist_def by blast

lemma str_strip_ends:
  assumes "c \<in> set chars"
  shows "\<not> prefix [c] (str_strip chars s)" and "\<not> suffix [c] (str_strip chars s)"
proof -
  let ?P = "\<lambda>c. c \<in> set chars"
  let ?t = "dropWhile ?P s"
  let ?u = "str_strip chars s"
  have u: "rev ?u = dropWhile ?P (rev ?t)" by (simp add: str_strip_def)
  have t: "?t = ?u @ rev (takeWhile ?P (rev ?t))"
    using takeWhile_dropWhile_id [of ?P "rev ?t"] u by (metis rev_append rev_rev_ident)
  show "\<not> prefix [c] ?u"
  proof
    assume "prefix [c] ?u"
    then obtain r where r: "?u = c # r" by (auto simp: prefix_def)
    with t have "?t = c # r @ rev (takeWhile ?P (rev ?t))" by simp
    then have "hd ?t = c" "?t \<noteq> []" by (metis list.sel(1), metis list.distinct(1))
    then have "\<not> ?P c" using hd_dropWhile [of ?P s] by auto
    with assms show False by simp
  qed
  show "\<not> suffix [c] ?u"
  proof
    assume "suffix [c] ?u"
    then obtain r where "?u = r @ [c]" by (auto simp: suffix_def)
    then have "rev ?u = c # rev r" by simp
    with u have d: "dropWhile ?P (rev ?t) = c # rev r" by simp
    then have "\<not> ?P (hd (c # rev r))"
      using hd_dropWhile [of ?P "rev ?t"] by (metis list.distinct(1))
    with assms show False by simp
  qed
qed

lemma str_strip_id:
  assumes "\<forall>c \<in> set chars. \<not> prefix [c] s \<and> \<not> suffix [c] s"
  shows "str_strip chars s = s"
proof (cases s)
  case Nil
  then show ?thesis by (simp add: str_strip_def)
next
  case (Cons a as)
  with assms have a: "a \<notin> set chars" by auto
  then have d: "dropWhile (\<lambda>c. c \<in> set chars) s = s" using Cons by simp
  from Cons have "s \<noteq> []" by simp
  then obtain b bs where r: "rev s = b # bs" by (cases "rev s") auto
  then have "s = rev bs @ [b]" by (metis rev.simps(2) rev_rev_ident)
  then have "suffix [b] s" by (auto simp: suffix_def)
  with assms have "b \<notin> set chars" by auto
  with r have "dropWhile (\<lambda>c. c \<in> set chars) (rev s) = rev s" by simp
  with d show ?thesis by (simp add: str_strip_def)
qed

lemma str_strip_idem: "str_strip chars (str_strip chars s) = str_strip chars s"
  by (rule str_strip_id) (simp add: str_strip_ends)

lemma clean_text_eq: "clean_text s = str_strip strip_chars (re_sub_fence s)"
proof -
  have "fence \<noteq> []" by (simp add: fence_def)
  then have "str_replace fence [] (re_sub_fence s) = re_sub_fence s"
    using re_sub_fence_no_fence by (rule str_replace_id)
  then show ?thesis by (simp add: clean_text_def)
qed

lemma clean_text_Nil: "clean_text [] = []"
  by (simp add: clean_text_def str_strip_def)

lemma clean_text_no_fence: "\<not> sublist fence (clean_text s)"
proof
  assume "sublist fence (clean_text s)"
  then have "sublist fence (re_sub_fence s)"
    unfolding clean_text_eq using str_strip_sublist sublist_order.order.trans by blast
  then show False by (simp add: re_sub_fence_no_fence)
qed

lemma clean_text_idem: "clean_text (clean_text s) = clean_text s"
proof -
  have "clean_text (clean_text s) = str_strip strip_chars (clean_text s)"
    by (simp add: clean_text_eq [of "clean_text s"] re_sub_fence_id clean_text_no_fence)
  also have "\<dots> = clean_text s"
    by (simp add: clean_text_eq str_strip_idem)
  finally show ?thesis .
qed


section \<open>The sanitizer: claims C4 and C5\<close>

text \<open>
  C4. The sanitizer is idempotent: cleaning a cleaned text changes nothing, for every
  string, and the same holds for \<open>clean_sql\<close> on every argument, \<open>None\<close> and the values
  it rejects included.
\<close>

theorem clean_sql_idempotent:
  "clean_text (clean_text s) = clean_text s \<and>
   clean_sql (JStr (clean_text s)) = clean_sql (JStr s) \<and>
   and_then (clean_sql v) (\<lambda>t. clean_sql (JStr t)) = clean_sql v"
proof -
  have "and_then (clean_sql v) (\<lambda>t. clean_sql (JStr t)) = clean_sql v"
    by (cases v) (simp_all add: and_then_def clean_text_idem clean_text_Nil)
  then show ?thesis by (simp add: clean_text_idem)
qed




section \<open>What each step does to the session\<close>

lemma emit_fields [simp]:
  "history (emit x s) = history s"
  "page (emit x s) = page s @ [x]"
  "prompts (emit x s) = prompts s"
  "queries (emit x s) = queries s"
  by (simp_all add: emit_def)

lemma gemini_call_state:
  "gemini_call e p s = (r, s') \<Longrightarrow> s' = s\<lparr>prompts := prompts s @ [p]\<rparr>"
  by (auto simp: gemini_call_def Let_def split: http_result.splits option.splits)

lemma gemini_call_json:
  "requests_post e (length (prompts s)) p = Response status (Some res) \<Longrightarrow>
   gemini_call e p s = (Inr res, s\<lparr>prompts := prompts s @ [p]\<rparr>)"
  by (simp add: gemini_call_def)

lemma gemini_call_Inr:
  "gemini_call e p s = (Inr res, s') \<Longrightarrow>
   \<exists>status. requests_post e (length (prompts s)) p = Response status (Some res)"
  by (auto simp: gemini_call_def Let_def split: http_result.splits option.splits)

lemma fix_sql_state:
  "fix_sql e q err s = (r, s') \<Longrightarrow> s' = s\<lparr>prompts := prompts s @ [fix_prompt q err]\<rparr>"
  by (auto simp: fix_sql_def split: prod.splits sum.splits dest: gemini_call_state)

lemma fix_sql_Some:
  "fix_sql e q err s = (Inr (Some f), s') \<Longrightarrow>
   \<exists>status res t. requests_post e (length (prompts s)) (fix_prompt q err) =
       Response status (Some res) \<and>
     and_then (extract_text res) clean_sql = Inr t \<and> f = date_sub (max_date e) t"
  by (auto simp: fix_sql_def split: prod.splits sum.splits dest: gemini_call_Inr)

lemma explain_results_state:
  "explain_results e df uq s = (r, s') \<Longrightarrow>
   s' = s\<lparr>prompts := prompts s @ [explain_prompt uq (df_to_csv e (df_head 10 df))]\<rparr>"
  by (auto simp: explain_results_def split: prod.splits sum.splits dest: gemini_call_state)

lemma generate_sql_cases:
  assumes "generate_sql e uq ht s = (r, s')"
  shows "history s' = history s \<and> queries s' = queries s \<and>
         prompts s' = prompts s @ [generate_prompt uq ht] \<and>
         ((\<exists>x. r = Inl x \<and> page s' = page s) \<or>
          (\<exists>sql. r = Inr (Some sql) \<and> page s' = page s) \<or>
          (\<exists>res. r = Inr None \<and>
             page s' = page s @ [StError ''Gemini could not generate SQL.'', StWrite res]))"
  using assms
  by (auto simp: generate_sql_def split: prod.splits sum.splits dest!: gemini_call_state)

lemma truthy_the: "truthy fo \<Longrightarrow> \<exists>f. fo = Some f \<and> f \<noteq> []"
  by (cases fo) auto

lemma execute_with_repair_cases:
  assumes "execute_with_repair e sql s = (r, s')"
  defines "q1 \<equiv> date_sub (max_date e) (category_sub sql)"
  defines "n \<equiv> length (queries s)"
  shows
   "(\<exists>df. duckdb_execute e n q1 = Inr df \<and> r = Inr df \<and>
        history s' = history s \<and> page s' = page s \<and> prompts s' = prompts s \<and>
        queries s' = queries s @ [q1]) \<or>
    (\<exists>err. duckdb_execute e n q1 = Inl err \<and>
        history s' = history s \<and> prompts s' = prompts s @ [fix_prompt q1 err] \<and>
        ((\<exists>x. r = Inl x \<and> queries s' = queries s @ [q1] \<and>
            page s' = page s @ [StWarning (''SQL failed: '' @ err),
                                StSpinner ''Auto-correcting SQL...'']) \<or>
         (r = Inr empty_dataframe \<and> queries s' = queries s @ [q1] \<and>
            page s' = page s @ [StWarning (''SQL failed: '' @ err),
                                StSpinner ''Auto-correcting SQL...'']) \<or>
         (\<exists>f df. f \<noteq> [] \<and> duckdb_execute e (Suc n) f = Inr df \<and> r = Inr df \<and>
            queries s' = queries s @ [q1, f] \<and>
            page s' = page s @ [StWarning (''SQL failed: '' @ err),
                                StSpinner ''Auto-correcting SQL...'', StCode f]) \<or>
         (\<exists>f err2. f \<noteq> [] \<and> duckdb_execute e (Suc n) f = Inl err2 \<and>
            r = Inr empty_dataframe \<and> queries s' = queries s @ [q1, f] \<and>
            page s' = page s @ [StWarning (''SQL failed: '' @ err),
                                StSpinner ''Auto-correcting SQL...'', StCode f,
                                StError (''Still invalid after correction: '' @ err2)])))"
proof (cases "duckdb_execute e n q1")
  case (Inr df)
  with assms show ?thesis
    by (auto simp: execute_with_repair_def execute_def Let_def)
next
  case (Inl err)
  let ?s2 = "emit (StSpinner ''Auto-correcting SQL...'')
               (emit (StWarning (''SQL failed: '' @ err)) (s\<lparr>queries := queries s @ [q1]\<rparr>))"
  obtain fr s3 where f: "fix_sql e q1 err ?s2 = (fr, s3)" by (cases "fix_sql e q1 err ?s2")
  then have s3: "s3 = ?s2\<lparr>prompts := prompts ?s2 @ [fix_prompt q1 err]\<rparr>"
    by (rule fix_sql_state)
  show ?thesis
  proof (cases fr)
    case x: (Inl x)
    with assms Inl f s3 show ?thesis
      by (auto simp: execute_with_repair_def execute_def Let_def)
  next
    case fo: (Inr fo)
    show ?thesis
    proof (cases "truthy fo")
      case False
      with assms Inl f s3 fo show ?thesis
        by (auto simp: execute_with_repair_def execute_def Let_def)
    next
      case True
      then obtain fx where fx: "fo = Some fx" "fx \<noteq> []" using truthy_the by blast
      show ?thesis
      proof (cases "duckdb_execute e (Suc n) fx")
        case df: (Inr df)
        with assms Inl f s3 fo fx show ?thesis
          by (auto simp: execute_with_repair_def execute_def Let_def)
      next
        case e2: (Inl err2)
        with assms Inl f s3 fo fx show ?thesis
          by (auto simp: execute_with_repair_def execute_def Let_def)
      qed
    qed
  qed
qed

text \<open>The first query a turn gives to the engine carries both substitutions.\<close>

lemma first_query_executed:
  "take (Suc (length (queries s))) (queries (snd (execute_with_repair e sql s))) =
   queries s @ [date_sub (max_date e) (category_sub sql)]"
proof -
  obtain r s' where "execute_with_repair e sql s = (r, s')"
    by (cases "execute_with_repair e sql s")
  then show ?thesis using execute_with_repair_cases [of e sql s r s'] by auto
qed

lemma show_result_cases:
  assumes "show_result e df uq s = (r, s')"
  shows
   "(df_empty df \<and> r = Inr () \<and> history s' = history s \<and> prompts s' = prompts s \<and>
       queries s' = queries s \<and>
       page s' = page s @ [StWarning ''No data returned for this query.'']) \<or>
    (\<not> df_empty df \<and> queries s' = queries s \<and>
       prompts s' = prompts s @ [explain_prompt uq (df_to_csv e (df_head 10 df))] \<and>
       (\<exists>chart. set chart \<subseteq> {StPlotlyChart (fst (hd (columns df))) (hd (num_cols df))} \<and>
          ((\<exists>x. r = Inl x \<and> history s' = history s \<and>
              (page s' = page s @ StDataframe (df_head 20 df) # chart @
                 [StSpinner ''Summarizing insights...''] \<or>
               (\<exists>v. history s = [] \<and>
                 page s' = page s @ StDataframe (df_head 20 df) # chart @
                 [StSpinner ''Summarizing insights...'',
                  StWrite (JStr ''**Insight Summary:**''), StWrite v]))) \<or>
           (\<exists>v. r = Inr () \<and> history s \<noteq> [] \<and>
              history s' = butlast (history s) @ [(last (history s))\<lparr>summary := Some v\<rparr>] \<and>
              page s' = page s @ StDataframe (df_head 20 df) # chart @
                 [StSpinner ''Summarizing insights...'',
                  StWrite (JStr ''**Insight Summary:**''), StWrite v]))))"
proof (cases "df_empty df")
  case True
  with assms show ?thesis by (auto simp: show_result_def)
next
  case False
  define chart where
    "chart = (if length (num_cols df) \<ge> 1
              then [StPlotlyChart (fst (hd (columns df))) (hd (num_cols df))] else [])"
  define s2 where
    "s2 = s\<lparr>page := page s @ StDataframe (df_head 20 df) # chart @
                 [StSpinner ''Summarizing insights...'']\<rparr>"
  have s2: "emit (StSpinner ''Summarizing insights...'')
              (if length (num_cols df) \<ge> 1
               then emit (StPlotlyChart (fst (hd (columns df))) (hd (num_cols df)))
                      (emit (StDataframe (df_head 20 df)) s)
               else emit (StDataframe (df_head 20 df)) s) = s2"
    by (simp add: s2_def chart_def emit_def)
  have c: "set chart \<subseteq> {StPlotlyChart (fst (hd (columns df))) (hd (num_cols df))}"
    by (auto simp: chart_def)
  obtain er s3 where x: "explain_results e df uq s2 = (er, s3)"
    by (cases "explain_results e df uq s2")
  then have s3: "s3 = s2\<lparr>prompts := prompts s2 @ [explain_prompt uq (df_to_csv e (df_head 10 df))]\<rparr>"
    by (rule explain_results_state)
  from assms False have r: "(r, s') =
      (case (er, s3) of (Inl x, s3) \<Rightarrow> (Inl x, s3)
       | (Inr insight, s3) \<Rightarrow>
           set_last_summary insight
             (emit (StWrite insight) (emit (StWrite (JStr ''**Insight Summary:**'')) s3)))"
    unfolding show_result_def Let_def s2 x [symmetric] by simp
  show ?thesis
  proof (cases er)
    case (Inl x)
    with r s3 False c show ?thesis by (auto simp: s2_def)
  next
    case (Inr v)
    with r s3 False c show ?thesis
      by (cases "history s = []") (auto simp: s2_def set_last_summary_def)
  qed
qed

section \<open>Facts about search and replace\<close>

lemma sublist_split_at:
  assumes "x \<notin> set p"
  shows "sublist p (a @ x # b) \<longleftrightarrow> sublist p a \<or> sublist p b"
proof
  assume "sublist p (a @ x # b)"
  then obtain l r where e: "a @ x # b = l @ p @ r" by (auto simp: sublist_def)
  show "sublist p a \<or> sublist p b"
  proof (cases "length (l @ p) \<le> length a")
    case True
    from e have "take (length (l @ p)) (a @ x # b) = l @ p" by simp
    with True have "take (length (l @ p)) a = l @ p" by simp
    then have "a = l @ p @ drop (length (l @ p)) a"
      by (metis append_assoc append_take_drop_id)
    then show ?thesis unfolding sublist_def by blast
  next
    case False
    then have la: "length a < length l + length p" by simp
    have "length a < length l"
    proof (rule ccontr)
      assume "\<not> length a < length l"
      with la have i: "length l \<le> length a" "length a - length l < length p" by auto
      from e have "(a @ x # b) ! length a = (l @ p @ r) ! length a" by simp
      with i have "x = p ! (length a - length l)"
        by (simp add: nth_append)
      with i assms show False by (metis nth_mem)
    qed
    then have "Suc (length a) \<le> length l" by simp
    moreover from e have "drop (Suc (length a)) (a @ x # b) = drop (Suc (length a)) (l @ p @ r)"
      by simp
    ultimately have "b = drop (Suc (length a)) l @ p @ r" by simp
    then show ?thesis unfolding sublist_def by blast
  qed
next
  assume "sublist p a \<or> sublist p b"
  then show "sublist p (a @ x # b)"
  proof
    assume "sublist p a"
    then obtain l r where "a = l @ p @ r" by (auto simp: sublist_def)
    then have "a @ x # b = l @ p @ (r @ x # b)" by simp
    then show ?thesis unfolding sublist_def by blast
  next
    assume "sublist p b"
    then obtain l r where "b = l @ p @ r" by (auto simp: sublist_def)
    then have "a @ x # b = (a @ x # l) @ p @ r" by simp
    then show ?thesis unfolding sublist_def by blast
  qed
qed

lemma sublist_left_append: "sublist p a \<Longrightarrow> sublist p (a @ b)"
  by (metis append.assoc sublist_def)

lemma sublist_right_append: "sublist p b \<Longrightarrow> sublist p (a @ b)"
  by (metis append.assoc sublist_def)

lemma sublist_take_window:
  assumes "sublist p (u @ take (length p) s)"
  shows "sublist p (u @ take (length p - 1) s) \<or> prefix p s"
proof (cases "length p \<le> length s \<and> p \<noteq> []")
  case True
  then have n: "length p - 1 < length s" "Suc (length p - 1) = length p" by (cases p; simp)+
  then have t: "take (length p) s = take (length p - 1) s @ [s ! (length p - 1)]"
    by (metis take_Suc_conv_app_nth)
  with assms have "sublist p ((u @ take (length p - 1) s) @ [s ! (length p - 1)])" by simp
  then have "suffix p ((u @ take (length p - 1) s) @ [s ! (length p - 1)]) \<or>
             sublist p (u @ take (length p - 1) s)"
    by (simp only: sublist_snoc)
  then show ?thesis
  proof
    assume "suffix p ((u @ take (length p - 1) s) @ [s ! (length p - 1)])"
    with t have "suffix p (u @ take (length p) s)" by simp
    then obtain l where "u @ take (length p) s = l @ p" by (auto simp: suffix_def)
    moreover have "length (take (length p) s) = length p" using True by simp
    ultimately have "take (length p) s = p" by (metis append_eq_append_conv)
    then show ?thesis by (metis take_is_prefix)
  qed simp
next
  case False
  then have "take (length p) s = take (length p - 1) s" by (cases p) auto
  with assms show ?thesis by simp
qed

lemma str_replace_present:
  "old \<noteq> [] \<Longrightarrow> sublist old s \<Longrightarrow> sublist new (str_replace old new s)"
proof (induction old new s rule: str_replace.induct)
  case (1 old new)
  then show ?case by simp
next
  case (2 old new c cs)
  show ?case
  proof (cases "prefix old (c # cs)")
    case True
    with 2 show ?thesis by simp
  next
    case False
    with 2 have "sublist new (str_replace old new cs)" by (simp add: sublist_Cons_right)
    with 2 False show ?thesis by (simp add: sublist_Cons_right)
  qed
qed

lemma butlast_last_append: "xs \<noteq> [] \<Longrightarrow> butlast xs @ last xs # ys = xs @ ys"
  by (induction xs) auto

lemma str_replace_skip:
  "old \<noteq> [] \<Longrightarrow> \<not> sublist old (a @ butlast old) \<Longrightarrow>
   str_replace old new (a @ old @ b) = a @ new @ str_replace old new b"
proof (induction a)
  case Nil
  then obtain c cs where "old = c # cs" by (cases old) auto
  then show ?case by simp
next
  case (Cons x a)
  have "\<not> prefix old (x # a @ old @ b)"
  proof
    assume "prefix old (x # a @ old @ b)"
    then obtain r where r: "x # a @ old @ b = old @ r" by (auto simp: prefix_def)
    define w where "w = x # a @ butlast old"
    have e: "butlast old @ last old # b = old @ b"
      using Cons.prems(1) by (rule butlast_last_append)
    have "w @ last old # b = old @ r"
      unfolding w_def by (simp only: append_Cons append_assoc e r)
    then have "take (length old) (w @ last old # b) = old" by simp
    moreover have "length old \<le> length w" by (simp add: w_def)
    ultimately have "take (length old) w = old" by simp
    then have "prefix old w" by (metis take_is_prefix)
    with Cons.prems(2) show False by (auto simp: w_def)
  qed
  moreover have "\<not> sublist old (a @ butlast old)"
    using Cons.prems(2) by (simp add: sublist_Cons_right)
  ultimately show ?case using Cons by simp
qed

section \<open>The date substitution\<close>

lemma date_sub_Nil: "date_sub d [] = []"
  by (simp add: date_sub_def placeholder_def)

lemma placeholder_not_Nil: "placeholder \<noteq> []"
  by (simp add: placeholder_def)

lemma date_sub_match: "date_sub d (placeholder @ rest) = date_literal d @ date_sub d rest"
  by (simp add: date_sub_def placeholder_def)

lemma date_sub_skip:
  "\<not> prefix placeholder (c # cs) \<Longrightarrow> date_sub d (c # cs) = c # date_sub d cs"
  using placeholder_not_Nil by (simp add: date_sub_def)

lemma placeholder_before_DATE:
  "sublist placeholder (u @ ''DATE'') \<Longrightarrow> sublist placeholder u \<or> suffix ''CURRENT_'' u"
proof -
  assume "sublist placeholder (u @ ''DATE'')"
  then have "sublist (rev placeholder) (rev (u @ ''DATE''))" by (simp only: sublist_rev)
  then have "sublist (rev placeholder) (rev u) \<or> prefix (rev ''CURRENT_'') (rev u)"
    by (auto simp: placeholder_def sublist_Cons_right)
  then show ?thesis by (simp only: suffix_to_prefix sublist_rev)
qed

lemma doubled_before_DATE:
  "sublist (''CURRENT_'' @ placeholder) (u @ ''DATE'') \<Longrightarrow>
   sublist (''CURRENT_'' @ placeholder) u \<or> suffix ''CURRENT_CURRENT_'' u"
proof -
  assume "sublist (''CURRENT_'' @ placeholder) (u @ ''DATE'')"
  then have "sublist (rev (''CURRENT_'' @ placeholder)) (rev (u @ ''DATE''))"
    by (simp only: sublist_rev)
  then have "sublist (rev (''CURRENT_'' @ placeholder)) (rev u) \<or>
             prefix (rev ''CURRENT_CURRENT_'') (rev u)"
    by (auto simp: placeholder_def sublist_Cons_right)
  then show ?thesis by (simp only: suffix_to_prefix sublist_rev)
qed

lemma sublist_around_literal:
  assumes "CHR '' '' \<notin> set p" "apostrophe \<notin> set p" "p \<noteq> []"
  shows "sublist p (u @ date_literal d @ w) \<longleftrightarrow>
         sublist p (u @ ''DATE'') \<or> sublist p d \<or> sublist p w"
proof -
  have "u @ date_literal d @ w = (u @ ''DATE'') @ CHR '' '' # ([] @ apostrophe # (d @ apostrophe # w))"
    by (simp add: date_literal_def)
  moreover have "sublist p ((u @ ''DATE'') @ CHR '' '' # ([] @ apostrophe # (d @ apostrophe # w))) \<longleftrightarrow>
      sublist p (u @ ''DATE'') \<or> sublist p ([] @ apostrophe # (d @ apostrophe # w))"
    using assms(1) by (rule sublist_split_at)
  moreover have "sublist p ([] @ apostrophe # (d @ apostrophe # w)) \<longleftrightarrow>
      sublist p [] \<or> sublist p (d @ apostrophe # w)"
    using assms(2) by (rule sublist_split_at)
  moreover have "sublist p (d @ apostrophe # w) \<longleftrightarrow> sublist p d \<or> sublist p w"
    using assms(2) by (rule sublist_split_at)
  moreover have "\<not> sublist p []" using assms(3) by simp
  ultimately show ?thesis by simp
qed

lemma date_sub_invariant:
  assumes d: "\<not> sublist placeholder d"
  shows "\<not> sublist placeholder (u @ take 11 s) \<Longrightarrow>
         \<not> sublist (''CURRENT_'' @ placeholder) (u @ s) \<Longrightarrow>
         \<not> sublist placeholder (u @ date_sub d s)"
proof (induction "length s" arbitrary: s u rule: less_induct)
  case less
  let ?cc = "''CURRENT_'' @ placeholder"
  have len: "length placeholder = 12" by (simp add: placeholder_def)
  have pu: "\<not> sublist placeholder u"
    using less.prems(1) sublist_left_append by blast
  show ?case
  proof (cases s)
    case Nil
    with less.prems show ?thesis by (simp add: date_sub_Nil)
  next
    case (Cons c cs)
    show ?thesis
    proof (cases "prefix placeholder s")
      case True
      then obtain rest where s: "s = placeholder @ rest" by (auto simp: prefix_def)
      have nsuf: "\<not> suffix ''CURRENT_'' u"
      proof
        assume "suffix ''CURRENT_'' u"
        then obtain v where "u = v @ ''CURRENT_''" by (auto simp: suffix_def)
        then have "u @ s = v @ ?cc @ rest" using s by simp
        then have "sublist ?cc (u @ s)" unfolding sublist_def by blast
        with less.prems(2) show False by simp
      qed
      have a: "\<not> sublist placeholder ((u @ date_literal d) @ take 11 rest)"
      proof -
        have "\<not> sublist placeholder (take 11 rest)"
          using sublist_length_le [of placeholder "take 11 rest"] len by auto
        moreover have "\<not> sublist placeholder (u @ ''DATE'')"
          using placeholder_before_DATE pu nsuf by blast
        moreover have "sublist placeholder (u @ date_literal d @ take 11 rest) \<longleftrightarrow>
            sublist placeholder (u @ ''DATE'') \<or> sublist placeholder d \<or>
            sublist placeholder (take 11 rest)"
          by (rule sublist_around_literal) (simp_all add: placeholder_def apostrophe_def)
        ultimately show ?thesis using d by simp
      qed
      have b: "\<not> sublist ?cc ((u @ date_literal d) @ rest)"
      proof -
        have "\<not> sublist ?cc rest"
        proof
          assume "sublist ?cc rest"
          then have "sublist ?cc ((u @ placeholder) @ rest)" by (rule sublist_right_append)
          with less.prems(2) s show False by simp
        qed
        moreover have "\<not> sublist ?cc d"
        proof
          assume "sublist ?cc d"
          moreover have "sublist placeholder ?cc" by (rule sublist_append_leftI)
          ultimately show False using d sublist_order.order.trans by blast
        qed
        moreover have "\<not> sublist ?cc (u @ ''DATE'')"
        proof
          assume "sublist ?cc (u @ ''DATE'')"
          then have "sublist ?cc u \<or> suffix ''CURRENT_CURRENT_'' u"
            by (rule doubled_before_DATE)
          then show False
          proof
            assume "sublist ?cc u"
            with less.prems(2) sublist_left_append show False by blast
          next
            assume "suffix ''CURRENT_CURRENT_'' u"
            then obtain v where "u = v @ ''CURRENT_CURRENT_''" by (auto simp: suffix_def)
            then have "u @ s = (v @ ''CURRENT_'') @ ?cc @ rest" using s by simp
            then have "sublist ?cc (u @ s)" unfolding sublist_def by blast
            with less.prems(2) show False by simp
          qed
        qed
        moreover have "sublist ?cc (u @ date_literal d @ rest) \<longleftrightarrow>
            sublist ?cc (u @ ''DATE'') \<or> sublist ?cc d \<or> sublist ?cc rest"
          by (rule sublist_around_literal) (simp_all add: placeholder_def apostrophe_def)
        ultimately show ?thesis by simp
      qed
      have "length rest < length s" using s len by simp
      from less.hyps [OF this a b] show ?thesis
        by (simp add: s date_sub_match)
    next
      case False
      have "\<not> sublist placeholder (u @ take (length placeholder) s)"
        using sublist_take_window [of placeholder u s] less.prems(1) False len by auto
      then have a: "\<not> sublist placeholder ((u @ [c]) @ take 11 cs)"
        using Cons len by simp
      have b: "\<not> sublist ?cc ((u @ [c]) @ cs)"
        using less.prems(2) Cons by simp
      have "length cs < length s" using Cons by simp
      from less.hyps [OF this a b] show ?thesis
        using False Cons by (simp add: date_sub_skip)
    qed
  qed
qed

lemma date_sub_no_placeholder:
  assumes "\<not> sublist placeholder d" "\<not> sublist (''CURRENT_'' @ placeholder) q"
  shows "\<not> sublist placeholder (date_sub d q)"
proof -
  have "\<not> sublist placeholder ([] @ take 11 q)"
    using sublist_length_le [of placeholder "take 11 q"] by (auto simp: placeholder_def)
  moreover have "\<not> sublist (''CURRENT_'' @ placeholder) ([] @ q)" using assms(2) by simp
  ultimately have "\<not> sublist placeholder ([] @ date_sub d q)"
    by (rule date_sub_invariant [OF assms(1)])
  then show ?thesis by simp
qed


section \<open>The date substitution: claim C6\<close>

text \<open>
  C6, as stated, fails: in \<open>CURRENT_CURRENT_DATE\<close> the replacement of the second half
  begins with \<open>DATE\<close> and rebuilds the placeholder behind the first half.
\<close>

theorem date_sub_rebuilds_placeholder:
  "str_contains placeholder (date_sub ''2018-09-03'' ''SELECT CURRENT_CURRENT_DATE'')"
  by (simp add: date_sub_def placeholder_def date_literal_def)

text \<open>
  C6, amended. The query given to the engine on the initial attempt is the generated
  text after the category and the date substitution. The date substitution puts the
  literal \<open>DATE '<max date>'\<close> at every occurrence of \<open>CURRENT_DATE\<close> met from the left;
  a query that contained the placeholder contains the literal afterwards; and, when the
  date text does not itself contain the placeholder, none remains in any query that did
  not contain \<open>CURRENT_CURRENT_DATE\<close>.
\<close>

theorem date_substitution:
  assumes "\<not> str_contains placeholder d"
  shows "take (Suc (length (queries s))) (queries (snd (execute_with_repair e sql s))) =
           queries s @ [date_sub (max_date e) (category_sub sql)] \<and>
         (\<not> str_contains placeholder (a @ butlast placeholder) \<longrightarrow>
            date_sub d (a @ placeholder @ b) = a @ date_literal d @ date_sub d b) \<and>
         (str_contains placeholder q \<longrightarrow> str_contains (date_literal d) (date_sub d q)) \<and>
         (\<not> str_contains (''CURRENT_'' @ placeholder) q \<longrightarrow>
            \<not> str_contains placeholder (date_sub d q))"
proof -
  have "\<not> str_contains placeholder (a @ butlast placeholder) \<longrightarrow>
        date_sub d (a @ placeholder @ b) = a @ date_literal d @ date_sub d b"
    unfolding date_sub_def str_contains_sublist
    using str_replace_skip [OF placeholder_not_Nil] by blast
  moreover have "str_contains placeholder q \<longrightarrow> str_contains (date_literal d) (date_sub d q)"
    unfolding date_sub_def str_contains_sublist
    using str_replace_present [OF placeholder_not_Nil] by blast
  moreover have "\<not> str_contains (''CURRENT_'' @ placeholder) q \<longrightarrow>
        \<not> str_contains placeholder (date_sub d q)"
    using assms date_sub_no_placeholder unfolding str_contains_sublist by blast
  ultimately show ?thesis using first_query_executed by blast
qed

theorem date_substitution_witness:
  "\<not> str_contains placeholder ''2018-09-03'' \<and>
   \<not> str_contains placeholder (''SELECT '' @ butlast placeholder) \<and>
   date_sub ''2018-09-03'' (''SELECT '' @ placeholder @ '' - INTERVAL 6 MONTH'') =
     ''SELECT '' @ date_literal ''2018-09-03'' @
     date_sub ''2018-09-03'' '' - INTERVAL 6 MONTH'' \<and>
   str_contains placeholder ''SELECT CURRENT_DATE'' \<and>
   str_contains (date_literal ''2018-09-03'') (date_sub ''2018-09-03'' ''SELECT CURRENT_DATE'') \<and>
   \<not> str_contains (''CURRENT_'' @ placeholder) ''SELECT CURRENT_DATE'' \<and>
   \<not> str_contains placeholder (date_sub ''2018-09-03'' ''SELECT CURRENT_DATE'')"
proof -
  have d: "\<not> str_contains placeholder ''2018-09-03''"
    by (simp add: placeholder_def)
  have h1: "\<not> str_contains placeholder (''SELECT '' @ butlast placeholder)"
    by (simp add: placeholder_def)
  have h2: "str_contains placeholder ''SELECT CURRENT_DATE''"
    by (simp add: placeholder_def)
  have h3: "\<not> str_contains (''CURRENT_'' @ placeholder) ''SELECT CURRENT_DATE''"
    by (simp add: placeholder_def)
  show ?thesis
    using d h1 h2 h3
      date_substitution [OF d, of _ _ _ "''SELECT ''" "'' - INTERVAL 6 MONTH''"
        "''SELECT CURRENT_DATE''"]
    by blast
qed

section \<open>The category substitution on the pieces of a query\<close>

lemma pieces_exist:
  "\<exists>c0 cs. s = c0 @ quote_join cs \<and> apostrophe \<notin> set c0 \<and> (\<forall>c \<in> set cs. apostrophe \<notin> set c)"
proof (induction s)
  case Nil
  have "[] = [] @ quote_join []" by simp
  then show ?case by (metis empty_iff list.set(1))
next
  case (Cons x s)
  then obtain c0 cs where r: "s = c0 @ quote_join cs" "apostrophe \<notin> set c0"
    "\<forall>c \<in> set cs. apostrophe \<notin> set c" by blast
  show ?case
  proof (cases "x = apostrophe")
    case True
    with r have "x # s = [] @ quote_join (c0 # cs)" "\<forall>c \<in> set (c0 # cs). apostrophe \<notin> set c"
      by simp_all
    then show ?thesis by (metis empty_iff list.set(1))
  next
    case False
    with r have "x # s = (x # c0) @ quote_join cs" "apostrophe \<notin> set (x # c0)" by simp_all
    with r(3) show ?thesis by blast
  qed
qed

lemma str_replace_before_quote:
  "q \<notin> set a \<Longrightarrow> str_replace (q # p) new (a @ b) = a @ str_replace (q # p) new b"
  by (induction a) auto

lemma sublist_before_quote:
  "q \<notin> set a \<Longrightarrow> sublist (q # p) (a @ b) \<longleftrightarrow> sublist (q # p) b"
  by (induction a) (auto simp: sublist_Cons_right)

lemma quote_join_head: "quote_join cs = [] \<or> hd (quote_join cs) = apostrophe"
  by (cases cs) auto

lemma takeWhile_piece:
  assumes "q \<notin> set c" "t = [] \<or> hd t = q"
  shows "takeWhile (\<lambda>x. x \<noteq> q) (c @ t) = c"
proof (cases t)
  case Nil
  with assms show ?thesis by (auto simp: takeWhile_eq_all_conv)
next
  case (Cons y ys)
  with assms have "t = q # ys" by simp
  with assms show ?thesis by (auto simp: takeWhile_tail takeWhile_eq_all_conv)
qed

lemma prefix_piece:
  assumes "q \<notin> set x" "q \<notin> set c" "t = [] \<or> hd t = q"
  shows "prefix (x @ q # r) (c @ t) \<longleftrightarrow> x = c \<and> prefix (q # r) t"
proof
  assume "prefix (x @ q # r) (c @ t)"
  then obtain z where z: "c @ t = x @ (q # r @ z)" by (auto simp: prefix_def)
  then have "takeWhile (\<lambda>y. y \<noteq> q) (c @ t) = takeWhile (\<lambda>y. y \<noteq> q) (x @ (q # r @ z))"
    by simp
  then have "c = x" using assms by (simp add: takeWhile_piece)
  with z show "x = c \<and> prefix (q # r) t" by (auto simp: prefix_def)
next
  assume "x = c \<and> prefix (q # r) t"
  then show "prefix (x @ q # r) (c @ t)" by simp
qed

lemma prefix_quoted_join:
  assumes "apostrophe \<notin> set x" "apostrophe \<notin> set c"
  shows "prefix (quoted x) (apostrophe # c @ quote_join cs) \<longleftrightarrow> c = x \<and> cs \<noteq> []"
proof -
  have "prefix (x @ apostrophe # []) (c @ quote_join cs) \<longleftrightarrow>
        x = c \<and> prefix (apostrophe # []) (quote_join cs)"
    using assms quote_join_head by (rule prefix_piece)
  moreover have "prefix [apostrophe] (quote_join cs) \<longleftrightarrow> cs \<noteq> []" by (cases cs) auto
  ultimately show ?thesis by (auto simp: quoted_def)
qed

lemma swap_pieces_Nil [simp]: "swap_pieces a b cs = [] \<longleftrightarrow> cs = []"
  by (induction a b cs rule: swap_pieces.induct) auto

lemma swap_pieces_set: "c \<in> set (swap_pieces a b cs) \<Longrightarrow> c \<in> set cs \<or> c = b"
  by (induction a b cs rule: swap_pieces.induct) (auto split: if_splits)

lemma quoted_not_Nil: "quoted a \<noteq> []"
  by (simp add: quoted_def)

lemma str_replace_pieces:
  assumes "apostrophe \<notin> set a" "\<forall>c \<in> set cs. apostrophe \<notin> set c"
  shows "str_replace (quoted a) (quoted b) (quote_join cs) = quote_join (swap_pieces a b cs)"
  using assms
proof (induction a b cs rule: swap_pieces.induct)
  case (1 a b c c' cs)
  from "1.prems" have f: "apostrophe \<notin> set c" "apostrophe \<notin> set c'"
    "\<forall>c \<in> set cs. apostrophe \<notin> set c" "\<forall>c \<in> set (c' # cs). apostrophe \<notin> set c"
    by simp_all
  have p: "prefix (quoted a) (apostrophe # c @ quote_join (c' # cs)) \<longleftrightarrow> c = a"
    using prefix_quoted_join [OF "1.prems"(1) f(1), of "c' # cs"] by simp
  show ?case
  proof (cases "c = a")
    case True
    have "drop (length (quoted a)) (apostrophe # a @ quote_join (c' # cs)) = c' @ quote_join cs"
      by (simp add: quoted_def)
    moreover have "str_replace (quoted a) (quoted b) (c' @ quote_join cs) =
        c' @ str_replace (quoted a) (quoted b) (quote_join cs)"
      unfolding quoted_def using f(2) by (rule str_replace_before_quote)
    moreover have "str_replace (quoted a) (quoted b) (quote_join cs) =
        quote_join (swap_pieces a b cs)"
      using "1.IH"(1) [OF True "1.prems"(1) f(3)] .
    ultimately have "str_replace (quoted a) (quoted b) (apostrophe # a @ quote_join (c' # cs)) =
        quoted b @ c' @ quote_join (swap_pieces a b cs)"
      using p True quoted_not_Nil [of a] by simp
    with True show ?thesis by (simp add: quoted_def)
  next
    case False
    have "str_replace (quoted a) (quoted b) (c @ quote_join (c' # cs)) =
        c @ str_replace (quoted a) (quoted b) (quote_join (c' # cs))"
      unfolding quoted_def using f(1) by (rule str_replace_before_quote)
    moreover have "str_replace (quoted a) (quoted b) (quote_join (c' # cs)) =
        quote_join (swap_pieces a b (c' # cs))"
      using "1.IH"(2) [OF False "1.prems"(1) f(4)] .
    ultimately have "str_replace (quoted a) (quoted b) (apostrophe # c @ quote_join (c' # cs)) =
        apostrophe # c @ quote_join (swap_pieces a b (c' # cs))"
      using p False quoted_not_Nil [of a] by simp
    with False show ?thesis by simp
  qed
next
  case (2 a b v)
  then have v: "apostrophe \<notin> set v" by simp
  have "\<not> prefix (quoted a) (apostrophe # v @ quote_join [])"
    using prefix_quoted_join [OF 2(1) v, of "[]"] by simp
  moreover have "str_replace (quoted a) (quoted b) (v @ []) =
      v @ str_replace (quoted a) (quoted b) []"
    unfolding quoted_def using v by (rule str_replace_before_quote)
  ultimately show ?case using quoted_not_Nil [of a] by simp
next
  case (3 a b)
  show ?case using quoted_not_Nil [of a] by simp
qed

lemma sublist_quoted_pieces:
  assumes "apostrophe \<notin> set x" "\<forall>c \<in> set cs. apostrophe \<notin> set c"
  shows "sublist (quoted x) (quote_join cs) \<longleftrightarrow> x \<in> set (butlast cs)"
  using assms(2)
proof (induction cs)
  case Nil
  show ?case by (simp add: quoted_def)
next
  case (Cons c cs)
  from Cons.prems have c: "apostrophe \<notin> set c" by simp
  have "sublist (quoted x) (c @ quote_join cs) \<longleftrightarrow> sublist (quoted x) (quote_join cs)"
    unfolding quoted_def using c by (rule sublist_before_quote)
  moreover have "prefix (quoted x) (apostrophe # c @ quote_join cs) \<longleftrightarrow> c = x \<and> cs \<noteq> []"
    using assms(1) c by (rule prefix_quoted_join)
  ultimately show ?case using Cons by (auto simp: sublist_Cons_right)
qed

lemma sublist_twice_pieces:
  assumes "apostrophe \<notin> set x" "\<forall>c \<in> set cs. apostrophe \<notin> set c"
  shows "sublist (quoted x @ x @ [apostrophe]) (quote_join cs) \<longleftrightarrow> twice_running x cs"
  using assms
proof (induction x cs rule: twice_running.induct)
  case (1 x c c' cs)
  from "1.prems" have f: "apostrophe \<notin> set x" "apostrophe \<notin> set c" "apostrophe \<notin> set c'"
    "\<forall>c \<in> set (c' # cs). apostrophe \<notin> set c"
    by simp_all
  have "sublist (quoted x @ x @ [apostrophe]) (c @ quote_join (c' # cs)) \<longleftrightarrow>
        sublist (quoted x @ x @ [apostrophe]) (quote_join (c' # cs))"
    unfolding quoted_def append_Cons using f(2) by (rule sublist_before_quote)
  moreover have "prefix (x @ apostrophe # (x @ [apostrophe])) (c @ quote_join (c' # cs)) \<longleftrightarrow>
      x = c \<and> prefix (apostrophe # (x @ [apostrophe])) (quote_join (c' # cs))"
    using f(1) f(2) quote_join_head by (rule prefix_piece)
  moreover have "prefix (apostrophe # (x @ [apostrophe])) (quote_join (c' # cs)) \<longleftrightarrow>
      c' = x \<and> cs \<noteq> []"
    using prefix_quoted_join [OF f(1) f(3), of cs] by (simp add: quoted_def)
  moreover have "sublist (quoted x @ x @ [apostrophe]) (quote_join (c' # cs)) \<longleftrightarrow>
      twice_running x (c' # cs)"
    using "1.IH" f(1) f(4) by blast
  ultimately show ?case by (auto simp: sublist_Cons_right quoted_def)
next
  case (3 x)
  show ?case by (simp add: quoted_def)
next
  case (2 x v)
  have "\<not> sublist (quoted x @ x @ [apostrophe]) (quote_join [v])"
  proof
    assume a: "sublist (quoted x @ x @ [apostrophe]) (quote_join [v])"
    have "sublist (quoted x) (quoted x @ x @ [apostrophe])" by (rule sublist_append_rightI)
    then have "sublist (quoted x) (quote_join [v])"
      using a sublist_order.order.trans by blast
    then have "x \<in> set (butlast [v])"
      using sublist_quoted_pieces [of x "[v]"] 2 by simp
    then show False by simp
  qed
  then show ?case by simp
qed


lemma twice_running_Cons: "twice_running x cs \<Longrightarrow> twice_running x (c # cs)"
  by (cases cs) auto

lemma swap_pieces_clears:
  "a \<noteq> b \<Longrightarrow> \<not> twice_running a cs \<Longrightarrow> a \<notin> set (butlast (swap_pieces a b cs))"
  by (induction a b cs rule: swap_pieces.induct) (auto dest: twice_running_Cons)

lemma swap_pieces_absent:
  "x \<noteq> b \<Longrightarrow> x \<notin> set (butlast cs) \<Longrightarrow> x \<notin> set (butlast (swap_pieces a b cs))"
  by (induction a b cs rule: swap_pieces.induct) (auto split: if_splits)

lemma swap_pieces_not_twice:
  "x \<noteq> b \<Longrightarrow> \<not> twice_running x cs \<Longrightarrow> \<not> twice_running x (swap_pieces a b cs)"
proof (induction a b cs rule: swap_pieces.induct)
  case (1 a b c c' cs)
  show ?case
  proof (cases "c = a")
    case True
    from 1 have n: "\<not> twice_running x cs"
      using twice_running_Cons by blast
    with 1 True have i: "\<not> twice_running x (swap_pieces a b cs)" by simp
    show ?thesis
    proof (cases "swap_pieces a b cs")
      case Nil
      with True 1 show ?thesis by simp
    next
      case (Cons d ds)
      then obtain e es where cs: "cs = e # es" by (cases cs) auto
      have d: "d = b \<or> d = e"
        using Cons cs by (cases es) (auto split: if_splits)
      have "ds = [] \<longleftrightarrow> es = []"
        using Cons cs swap_pieces_Nil [of a b es] by (cases es) (auto split: if_splits)
      with 1 True Cons i d cs show ?thesis by auto
    qed
  next
    case False
    with 1 have i: "\<not> twice_running x (swap_pieces a b (c' # cs))" by simp
    obtain d ds where t: "swap_pieces a b (c' # cs) = d # ds"
      by (cases "swap_pieces a b (c' # cs)") auto
    have d: "d = b \<or> d = c'"
      using t by (cases cs) (auto split: if_splits)
    have "ds = [] \<longleftrightarrow> cs = []"
      using t swap_pieces_Nil [of a b cs] by (cases cs) (auto split: if_splits)
    with 1 False t i d show ?thesis by auto
  qed
qed simp_all

lemma swap_pieces_keeps:
  "x \<noteq> a \<Longrightarrow> x \<in> set (butlast cs) \<Longrightarrow> x \<in> set (butlast (swap_pieces a b cs))"
  by (induction a b cs rule: swap_pieces.induct) (auto split: if_splits)

lemma swap_pieces_puts:
  "a \<in> set (butlast cs) \<Longrightarrow> b \<in> set (butlast (swap_pieces a b cs))"
  by (induction a b cs rule: swap_pieces.induct) (auto split: if_splits)

lemma fold_swap_absent:
  "\<forall>(a, b) \<in> set m. x \<noteq> b \<Longrightarrow> x \<notin> set (butlast cs) \<Longrightarrow>
   x \<notin> set (butlast (fold (\<lambda>(a, b). swap_pieces a b) m cs))"
  by (induction m arbitrary: cs) (auto simp: swap_pieces_absent)

lemma fold_swap_keeps:
  "\<forall>(a, b) \<in> set m. x \<noteq> a \<Longrightarrow> x \<in> set (butlast cs) \<Longrightarrow>
   x \<in> set (butlast (fold (\<lambda>(a, b). swap_pieces a b) m cs))"
  by (induction m arbitrary: cs) (auto simp: swap_pieces_keeps)

lemma fold_swap_clears:
  assumes "\<forall>(a, b) \<in> set m. \<forall>(a', b') \<in> set m. a \<noteq> b'"
    and "\<forall>(a, b) \<in> set m. \<not> twice_running a cs"
    and "(a, b) \<in> set m"
  shows "a \<notin> set (butlast (fold (\<lambda>(a, b). swap_pieces a b) m cs))"
  using assms
proof (induction m arbitrary: cs)
  case Nil
  then show ?case by simp
next
  case (Cons p m)
  obtain a0 b0 where p: "p = (a0, b0)" by (cases p)
  have k: "\<forall>(a, b) \<in> set m. \<forall>(a', b') \<in> set m. a \<noteq> b'"
    using Cons.prems(1) by auto
  have t: "\<forall>(a, b) \<in> set m. \<not> twice_running a (swap_pieces a0 b0 cs)"
  proof -
    have "\<not> twice_running a' (swap_pieces a0 b0 cs)" if "(a', b') \<in> set m" for a' b'
    proof (rule swap_pieces_not_twice)
      show "a' \<noteq> b0" using Cons.prems(1) that p by auto
      show "\<not> twice_running a' cs" using Cons.prems(2) that by auto
    qed
    then show ?thesis by auto
  qed
  show ?case
  proof (cases "(a, b) \<in> set m")
    case True
    from Cons.IH [OF k t True] show ?thesis by (simp add: p)
  next
    case False
    with Cons.prems(3) p have e: "a = a0" "b = b0" by auto
    have "a0 \<noteq> b0" using Cons.prems(1) p by auto
    moreover have "\<not> twice_running a0 cs" using Cons.prems(2) p by auto
    ultimately have "a0 \<notin> set (butlast (swap_pieces a0 b0 cs))"
      by (rule swap_pieces_clears)
    moreover have "\<forall>(a', b') \<in> set m. a0 \<noteq> b'" using Cons.prems(1) p by auto
    ultimately have "a0 \<notin> set (butlast (fold (\<lambda>(a, b). swap_pieces a b) m (swap_pieces a0 b0 cs)))"
      using fold_swap_absent by blast
    then show ?thesis by (simp add: p e)
  qed
qed

lemma fold_swap_puts:
  assumes "distinct (map fst m)"
    and "\<forall>(a, b) \<in> set m. \<forall>(a', b') \<in> set m. a \<noteq> b'"
    and "(a, b) \<in> set m" "a \<in> set (butlast cs)"
  shows "b \<in> set (butlast (fold (\<lambda>(a, b). swap_pieces a b) m cs))"
  using assms
proof (induction m arbitrary: cs)
  case Nil
  then show ?case by simp
next
  case (Cons p m)
  obtain a0 b0 where p: "p = (a0, b0)" by (cases p)
  have k: "\<forall>(a, b) \<in> set m. \<forall>(a', b') \<in> set m. a \<noteq> b'"
    using Cons.prems(2) by auto
  have dm: "distinct (map fst m)" using Cons.prems(1) by simp
  show ?case
  proof (cases "(a, b) \<in> set m")
    case True
    then have "a \<in> fst ` set m" by force
    with Cons.prems(1) p have "a \<noteq> a0" by auto
    then have "a \<in> set (butlast (swap_pieces a0 b0 cs))"
      using Cons.prems(4) by (rule swap_pieces_keeps)
    from Cons.IH [OF dm k True this] show ?thesis by (simp add: p)
  next
    case False
    with Cons.prems(3) p have e: "a = a0" "b = b0" by auto
    have "b0 \<in> set (butlast (swap_pieces a0 b0 cs))"
      using Cons.prems(4) e by (simp add: swap_pieces_puts)
    moreover have "\<forall>(a', b') \<in> set m. b0 \<noteq> a'" using Cons.prems(2) p by auto
    ultimately have "b0 \<in> set (butlast (fold (\<lambda>(a, b). swap_pieces a b) m (swap_pieces a0 b0 cs)))"
      using fold_swap_keeps by blast
    then show ?thesis by (simp add: p e)
  qed
qed

lemma fold_replace_pieces:
  assumes "\<forall>(a, b) \<in> set m. apostrophe \<notin> set a \<and> apostrophe \<notin> set b"
    and "apostrophe \<notin> set c0" "\<forall>c \<in> set cs. apostrophe \<notin> set c"
  shows "fold (\<lambda>(eng, por) q. str_replace (quoted eng) (quoted por) q) m (c0 @ quote_join cs) =
         c0 @ quote_join (fold (\<lambda>(a, b). swap_pieces a b) m cs)"
  using assms
proof (induction m arbitrary: cs)
  case Nil
  then show ?case by simp
next
  case (Cons p m)
  obtain a0 b0 where p: "p = (a0, b0)" by (cases p)
  from Cons.prems(1) p have ab: "apostrophe \<notin> set a0" "apostrophe \<notin> set b0" by auto
  have "str_replace (quoted a0) (quoted b0) (c0 @ quote_join cs) =
        c0 @ str_replace (quoted a0) (quoted b0) (quote_join cs)"
    unfolding quoted_def using Cons.prems(2) by (rule str_replace_before_quote)
  also have "\<dots> = c0 @ quote_join (swap_pieces a0 b0 cs)"
    using str_replace_pieces [OF ab(1) Cons.prems(3)] by simp
  finally have 1: "str_replace (quoted a0) (quoted b0) (c0 @ quote_join cs) =
      c0 @ quote_join (swap_pieces a0 b0 cs)" .
  have 2: "\<forall>c \<in> set (swap_pieces a0 b0 cs). apostrophe \<notin> set c"
    using swap_pieces_set [of _ a0 b0 cs] Cons.prems(3) ab(2) by blast
  have 3: "\<forall>(a, b) \<in> set m. apostrophe \<notin> set a \<and> apostrophe \<notin> set b"
    using Cons.prems(1) by simp
  from Cons.IH [OF 3 Cons.prems(2) 2] 1 show ?case by (simp add: p)
qed


lemma fold_swap_free:
  "\<forall>(a, b) \<in> set m. apostrophe \<notin> set b \<Longrightarrow> \<forall>c \<in> set cs. apostrophe \<notin> set c \<Longrightarrow>
   \<forall>c \<in> set (fold (\<lambda>(a, b). swap_pieces a b) m cs). apostrophe \<notin> set c"
proof (induction m arbitrary: cs)
  case Nil
  then show ?case by simp
next
  case (Cons p m)
  obtain a0 b0 where p: "p = (a0, b0)" by (cases p)
  have "\<forall>c \<in> set (swap_pieces a0 b0 cs). apostrophe \<notin> set c"
    using swap_pieces_set [of _ a0 b0 cs] Cons.prems p by auto
  moreover have "\<forall>(a, b) \<in> set m. apostrophe \<notin> set b" using Cons.prems(1) by simp
  ultimately show ?case using Cons.IH by (simp add: p)
qed

lemma category_map_free:
  "\<forall>(a, b) \<in> set category_map. apostrophe \<notin> set a \<and> apostrophe \<notin> set b"
  by (simp add: category_map_def apostrophe_def)

lemma category_map_apart:
  "\<forall>(a, b) \<in> set category_map. \<forall>(a', b') \<in> set category_map. a \<noteq> b'"
  by (simp add: category_map_def)

lemma category_map_distinct: "distinct (map fst category_map)"
  by (simp add: category_map_def)

section \<open>The category substitution: claim C7\<close>

text \<open>
  C7, as stated, fails: in \<open>'electronics'electronics'\<close> the first match uses up the
  apostrophe in the middle, so the second token is not found and stays.
\<close>

theorem category_sub_leaves_token:
  "str_contains (quoted ''electronics'')
     (category_sub ''SELECT 'electronics'electronics' FROM olist'')"
  by (simp add: category_sub_def category_map_def quoted_def apostrophe_def)

text \<open>
  C7, amended. The query given to the engine on the initial attempt has gone through
  the category substitution. For a query in which no English token of the table occurs
  twice in a row around one shared apostrophe (\<open>'t't'\<close>), none of the six quoted English
  tokens is left afterwards, and for every quoted English token the query contained,
  its quoted dataset token is in the result.
\<close>

theorem category_substitution:
  assumes "\<forall>(eng, por) \<in> set category_map.
             \<not> str_contains (quoted eng @ eng @ [apostrophe]) sql"
  shows "take (Suc (length (queries s))) (queries (snd (execute_with_repair e sql s))) =
           queries s @ [date_sub (max_date e) (category_sub sql)] \<and>
         (\<forall>(eng, por) \<in> set category_map.
            \<not> str_contains (quoted eng) (category_sub sql) \<and>
            (str_contains (quoted eng) sql \<longrightarrow> str_contains (quoted por) (category_sub sql)))"
proof -
  obtain c0 cs where r: "sql = c0 @ quote_join cs" "apostrophe \<notin> set c0"
    "\<forall>c \<in> set cs. apostrophe \<notin> set c"
    using pieces_exist by blast
  define cs' where "cs' = fold (\<lambda>(a, b). swap_pieces a b) category_map cs"
  have out: "category_sub sql = c0 @ quote_join cs'"
    unfolding category_sub_def cs'_def r(1)
    using category_map_free r(2) r(3) by (rule fold_replace_pieces)
  have free': "\<forall>c \<in> set cs'. apostrophe \<notin> set c"
    unfolding cs'_def using category_map_free r(3) by (intro fold_swap_free) auto
  have "\<not> str_contains (quoted eng) (category_sub sql) \<and>
        (str_contains (quoted eng) sql \<longrightarrow> str_contains (quoted por) (category_sub sql))"
    if m: "(eng, por) \<in> set category_map" for eng por
  proof -
    from m category_map_free have f: "apostrophe \<notin> set eng" "apostrophe \<notin> set por" by auto
    have in_sql: "sublist (quoted x) sql \<longleftrightarrow> x \<in> set (butlast cs)"
      if "apostrophe \<notin> set x" for x
    proof -
      have "sublist (quoted x) (c0 @ quote_join cs) \<longleftrightarrow> sublist (quoted x) (quote_join cs)"
        unfolding quoted_def using r(2) by (rule sublist_before_quote)
      then show ?thesis using sublist_quoted_pieces [OF that r(3)] r(1) by simp
    qed
    have in_out: "sublist (quoted x) (category_sub sql) \<longleftrightarrow> x \<in> set (butlast cs')"
      if "apostrophe \<notin> set x" for x
    proof -
      have "sublist (quoted x) (c0 @ quote_join cs') \<longleftrightarrow> sublist (quoted x) (quote_join cs')"
        unfolding quoted_def using r(2) by (rule sublist_before_quote)
      then show ?thesis using sublist_quoted_pieces [OF that free'] out by simp
    qed
    have tw: "\<forall>(a, b) \<in> set category_map. \<not> twice_running a cs"
    proof -
      have "\<not> twice_running a cs" if ab: "(a, b) \<in> set category_map" for a b
      proof -
        from ab category_map_free have a: "apostrophe \<notin> set a" by auto
        have "sublist (quoted a @ a @ [apostrophe]) (c0 @ quote_join cs) \<longleftrightarrow>
              sublist (quoted a @ a @ [apostrophe]) (quote_join cs)"
          unfolding quoted_def append_Cons using r(2) by (rule sublist_before_quote)
        moreover have "\<not> sublist (quoted a @ a @ [apostrophe]) sql"
          using assms ab by (auto simp: str_contains_sublist)
        ultimately show ?thesis using sublist_twice_pieces [OF a r(3)] r(1) by simp
      qed
      then show ?thesis by auto
    qed
    have "eng \<notin> set (butlast cs')"
      unfolding cs'_def using category_map_apart tw m by (rule fold_swap_clears)
    moreover have "por \<in> set (butlast cs')" if "eng \<in> set (butlast cs)"
      unfolding cs'_def using category_map_distinct category_map_apart m that
      by (rule fold_swap_puts)
    ultimately show ?thesis
      by (simp add: str_contains_sublist in_sql [OF f(1)] in_out [OF f(1)] in_out [OF f(2)])
  qed
  then show ?thesis using first_query_executed by blast
qed

theorem category_substitution_witness:
  "\<not> str_contains (quoted ''electronics'' @ ''electronics'' @ [apostrophe])
       ''SELECT 1 FROM olist WHERE c IN ('electronics', 'toys')'' \<and>
   \<not> str_contains (quoted ''furniture'' @ ''furniture'' @ [apostrophe])
       ''SELECT 1 FROM olist WHERE c IN ('electronics', 'toys')'' \<and>
   \<not> str_contains (quoted ''fashion'' @ ''fashion'' @ [apostrophe])
       ''SELECT 1 FROM olist WHERE c IN ('electronics', 'toys')'' \<and>
   \<not> str_contains (quoted ''health_beauty'' @ ''health_beauty'' @ [apostrophe])
       ''SELECT 1 FROM olist WHERE c IN ('electronics', 'toys')'' \<and>
   \<not> str_contains (quoted ''toys'' @ ''toys'' @ [apostrophe])
       ''SELECT 1 FROM olist WHERE c IN ('electronics', 'toys')'' \<and>
   \<not> str_contains (quoted ''books'' @ ''books'' @ [apostrophe])
       ''SELECT 1 FROM olist WHERE c IN ('electronics', 'toys')'' \<and>
   str_contains (quoted ''electronics'')
     ''SELECT 1 FROM olist WHERE c IN ('electronics', 'toys')'' \<and>
   \<not> str_contains (quoted ''electronics'')
     (category_sub ''SELECT 1 FROM olist WHERE c IN ('electronics', 'toys')'') \<and>
   str_contains (quoted ''eletronicos'')
     (category_sub ''SELECT 1 FROM olist WHERE c IN ('electronics', 'toys')'')"
proof -
  let ?q = "''SELECT 1 FROM olist WHERE c IN ('electronics', 'toys')''"
  have h1: "\<not> str_contains (quoted ''electronics'' @ ''electronics'' @ [apostrophe]) ?q"
    by (simp add: quoted_def apostrophe_def)
  have h2: "\<not> str_contains (quoted ''furniture'' @ ''furniture'' @ [apostrophe]) ?q"
    by (simp add: quoted_def apostrophe_def)
  have h3: "\<not> str_contains (quoted ''fashion'' @ ''fashion'' @ [apostrophe]) ?q"
    by (simp add: quoted_def apostrophe_def)
  have h4: "\<not> str_contains (quoted ''health_beauty'' @ ''health_beauty'' @ [apostrophe]) ?q"
    by (simp add: quoted_def apostrophe_def)
  have h5: "\<not> str_contains (quoted ''toys'' @ ''toys'' @ [apostrophe]) ?q"
    by (simp add: quoted_def apostrophe_def)
  have h6: "\<not> str_contains (quoted ''books'' @ ''books'' @ [apostrophe]) ?q"
    by (simp add: quoted_def apostrophe_def)
  have h: "\<forall>(eng, por) \<in> set category_map.
      \<not> str_contains (quoted eng @ eng @ [apostrophe]) ?q"
    unfolding category_map_def using h1 h2 h3 h4 h5 h6 by simp
  have c: "str_contains (quoted ''electronics'') ?q"
    by (simp add: quoted_def apostrophe_def)
  have m: "(''electronics'', ''eletronicos'') \<in> set category_map"
    by (simp add: category_map_def)
  from category_substitution [OF h] have
    "\<forall>(eng, por) \<in> set category_map.
       \<not> str_contains (quoted eng) (category_sub ?q) \<and>
       (str_contains (quoted eng) ?q \<longrightarrow> str_contains (quoted por) (category_sub ?q))"
    by blast
  with m have "\<not> str_contains (quoted ''electronics'') (category_sub ?q) \<and>
       (str_contains (quoted ''electronics'') ?q \<longrightarrow>
        str_contains (quoted ''eletronicos'') (category_sub ?q))"
    by blast
  with h1 h2 h3 h4 h5 h6 c show ?thesis by blast
qed

section \<open>One turn, path by path\<close>

lemma run_analysis_skip:
  "\<not> (run_btn \<and> uq \<noteq> []) \<Longrightarrow> run_analysis e run_btn uq s = (Inr (), s)"
  unfolding run_analysis_def by (rule if_not_P)

lemma generate_sql_elim:
  assumes "generate_sql e uq ht s = (r, s')"
  obtains (raised) x where "r = Inl x" "history s' = history s" "queries s' = queries s"
      "page s' = page s"
    | (generated) sql where "r = Inr (Some sql)" "history s' = history s" "queries s' = queries s"
      "page s' = page s"
    | (no_sql) res where "r = Inr None" "history s' = history s" "queries s' = queries s"
      "page s' = page s @ [StError ''Gemini could not generate SQL.'', StWrite res]"
  using generate_sql_cases [OF assms] that by blast

lemma execute_with_repair_elim:
  assumes "execute_with_repair e sql s = (r, s')"
  obtains (first_ok) df where
      "duckdb_execute e (length (queries s)) (date_sub (max_date e) (category_sub sql)) = Inr df"
      "r = Inr df" "history s' = history s" "page s' = page s"
      "queries s' = queries s @ [date_sub (max_date e) (category_sub sql)]"
    | (fix_raised) err x where
      "duckdb_execute e (length (queries s)) (date_sub (max_date e) (category_sub sql)) = Inl err"
      "r = Inl x" "history s' = history s"
      "page s' = page s @ [StWarning (''SQL failed: '' @ err), StSpinner ''Auto-correcting SQL...'']"
      "queries s' = queries s @ [date_sub (max_date e) (category_sub sql)]"
    | (fix_nothing) err where
      "duckdb_execute e (length (queries s)) (date_sub (max_date e) (category_sub sql)) = Inl err"
      "r = Inr empty_dataframe" "history s' = history s"
      "page s' = page s @ [StWarning (''SQL failed: '' @ err), StSpinner ''Auto-correcting SQL...'']"
      "queries s' = queries s @ [date_sub (max_date e) (category_sub sql)]"
    | (repaired) err f df where
      "duckdb_execute e (length (queries s)) (date_sub (max_date e) (category_sub sql)) = Inl err"
      "duckdb_execute e (Suc (length (queries s))) f = Inr df"
      "r = Inr df" "history s' = history s"
      "page s' = page s @ [StWarning (''SQL failed: '' @ err), StSpinner ''Auto-correcting SQL...'',
                           StCode f]"
      "queries s' = queries s @ [date_sub (max_date e) (category_sub sql), f]"
    | (repair_failed) err f err2 where
      "duckdb_execute e (length (queries s)) (date_sub (max_date e) (category_sub sql)) = Inl err"
      "duckdb_execute e (Suc (length (queries s))) f = Inl err2"
      "r = Inr empty_dataframe" "history s' = history s"
      "page s' = page s @ [StWarning (''SQL failed: '' @ err), StSpinner ''Auto-correcting SQL...'',
                           StCode f, StError (''Still invalid after correction: '' @ err2)]"
      "queries s' = queries s @ [date_sub (max_date e) (category_sub sql), f]"
  using execute_with_repair_cases [OF assms] that by blast

lemma show_result_elim:
  assumes "show_result e df uq s = (r, s')" "history s \<noteq> []"
  obtains (empty) "df_empty df" "r = Inr ()" "history s' = history s" "queries s' = queries s"
      "page s' = page s @ [StWarning ''No data returned for this query.'']"
    | (raised) x chart where "\<not> df_empty df" "r = Inl x" "history s' = history s"
      "queries s' = queries s"
      "page s' = page s @ StDataframe (df_head 20 df) # chart @
                 [StSpinner ''Summarizing insights...'']"
      "set chart \<subseteq> {StPlotlyChart (fst (hd (columns df))) (hd (num_cols df))}"
    | (shown) v chart where "\<not> df_empty df" "r = Inr ()"
      "history s' = butlast (history s) @ [(last (history s))\<lparr>summary := Some v\<rparr>]"
      "queries s' = queries s"
      "page s' = page s @ StDataframe (df_head 20 df) # chart @
                 [StSpinner ''Summarizing insights...'',
                  StWrite (JStr ''**Insight Summary:**''), StWrite v]"
      "set chart \<subseteq> {StPlotlyChart (fst (hd (columns df))) (hd (num_cols df))}"
  using show_result_cases [OF assms(1)] assms(2) that by blast


lemma run_analysis_start:
  assumes "run_analysis e run_btn uq s = (out, s')" "run_btn" "uq \<noteq> []"
  obtains gr s1 where
    "generate_sql e uq (str_join ''\<newline>'' (map (\<lambda>h. ''User: '' @ user h) (history s)))
       (emit (StSpinner ''Generating SQL...'')
          (s\<lparr>history := history s @ [\<lparr>user = uq, summary = None\<rparr>]\<rparr>)) = (gr, s1)"
    "(out, s') =
      (case gr of
         Inl x \<Rightarrow> (Inl x, s1)
       | Inr sql_query \<Rightarrow>
           if truthy sql_query then
             (case execute_with_repair e (the sql_query)
                     (emit (StCode (the sql_query)) (emit (StSubheader ''Generated SQL'') s1)) of
                (Inl x, s2) \<Rightarrow> (Inl x, s2)
              | (Inr result, s2) \<Rightarrow> show_result e result uq s2)
           else (Inr (), emit (StWarning ''Gemini could not generate SQL for that query.'') s1))"
proof -
  let ?ht = "str_join ''\<newline>'' (map (\<lambda>h. ''User: '' @ user h) (history s))"
  let ?s0 = "emit (StSpinner ''Generating SQL...'')
               (s\<lparr>history := history s @ [\<lparr>user = uq, summary = None\<rparr>]\<rparr>)"
  obtain gr s1 where g: "generate_sql e uq ?ht ?s0 = (gr, s1)"
    by (cases "generate_sql e uq ?ht ?s0")
  have "(out, s') =
      (case (gr, s1) of
         (Inl x, s1) \<Rightarrow> (Inl x, s1)
       | (Inr sql_query, s1) \<Rightarrow>
           if truthy sql_query then
             (case execute_with_repair e (the sql_query)
                     (emit (StCode (the sql_query)) (emit (StSubheader ''Generated SQL'') s1)) of
                (Inl x, s2) \<Rightarrow> (Inl x, s2)
              | (Inr result, s2) \<Rightarrow> show_result e result uq s2)
           else (Inr (), emit (StWarning ''Gemini could not generate SQL for that query.'') s1))"
    using assms unfolding run_analysis_def Let_def g [symmetric]
    by (simp add: emit_def)
  then show thesis using that [OF g] by simp
qed

text \<open>
  Every way through a turn. Where a result set reaches the display, the state before
  the display is \<open>s2\<close>.
\<close>

lemma run_analysis_elim:
  assumes "run_analysis e run_btn uq s = (out, s')" "run_btn" "uq \<noteq> []"
  obtains (gen_raised) x where "out = Inl x"
      "history s' = history s @ [\<lparr>user = uq, summary = None\<rparr>]" "queries s' = queries s"
      "page s' = page s @ [StSpinner ''Generating SQL...'']"
    | (gen_empty) "out = Inr ()"
      "history s' = history s @ [\<lparr>user = uq, summary = None\<rparr>]" "queries s' = queries s"
      "page s' = page s @ [StSpinner ''Generating SQL...'',
         StWarning ''Gemini could not generate SQL for that query.'']"
    | (gen_nothing) res where "out = Inr ()"
      "history s' = history s @ [\<lparr>user = uq, summary = None\<rparr>]" "queries s' = queries s"
      "page s' = page s @ [StSpinner ''Generating SQL...'',
         StError ''Gemini could not generate SQL.'', StWrite res,
         StWarning ''Gemini could not generate SQL for that query.'']"
    | (first_ok) sql df s2 where
      "duckdb_execute e (length (queries s)) (date_sub (max_date e) (category_sub sql)) = Inr df"
      "show_result e df uq s2 = (out, s')"
      "history s2 = history s @ [\<lparr>user = uq, summary = None\<rparr>]"
      "queries s2 = queries s @ [date_sub (max_date e) (category_sub sql)]"
      "page s2 = page s @ [StSpinner ''Generating SQL...'', StSubheader ''Generated SQL'',
         StCode sql]"
    | (fix_raised) sql err x where
      "duckdb_execute e (length (queries s)) (date_sub (max_date e) (category_sub sql)) = Inl err"
      "out = Inl x"
      "history s' = history s @ [\<lparr>user = uq, summary = None\<rparr>]"
      "queries s' = queries s @ [date_sub (max_date e) (category_sub sql)]"
      "page s' = page s @ [StSpinner ''Generating SQL...'', StSubheader ''Generated SQL'',
         StCode sql, StWarning (''SQL failed: '' @ err), StSpinner ''Auto-correcting SQL...'']"
    | (fix_nothing) sql err where
      "duckdb_execute e (length (queries s)) (date_sub (max_date e) (category_sub sql)) = Inl err"
      "out = Inr ()"
      "history s' = history s @ [\<lparr>user = uq, summary = None\<rparr>]"
      "queries s' = queries s @ [date_sub (max_date e) (category_sub sql)]"
      "page s' = page s @ [StSpinner ''Generating SQL...'', StSubheader ''Generated SQL'',
         StCode sql, StWarning (''SQL failed: '' @ err), StSpinner ''Auto-correcting SQL...'',
         StWarning ''No data returned for this query.'']"
    | (repaired) sql err f df s2 where
      "duckdb_execute e (length (queries s)) (date_sub (max_date e) (category_sub sql)) = Inl err"
      "duckdb_execute e (Suc (length (queries s))) f = Inr df"
      "show_result e df uq s2 = (out, s')"
      "history s2 = history s @ [\<lparr>user = uq, summary = None\<rparr>]"
      "queries s2 = queries s @ [date_sub (max_date e) (category_sub sql), f]"
      "page s2 = page s @ [StSpinner ''Generating SQL...'', StSubheader ''Generated SQL'',
         StCode sql, StWarning (''SQL failed: '' @ err), StSpinner ''Auto-correcting SQL...'',
         StCode f]"
    | (repair_failed) sql err f err2 where
      "duckdb_execute e (length (queries s)) (date_sub (max_date e) (category_sub sql)) = Inl err"
      "duckdb_execute e (Suc (length (queries s))) f = Inl err2"
      "out = Inr ()"
      "history s' = history s @ [\<lparr>user = uq, summary = None\<rparr>]"
      "queries s' = queries s @ [date_sub (max_date e) (category_sub sql), f]"
      "page s' = page s @ [StSpinner ''Generating SQL...'', StSubheader ''Generated SQL'',
         StCode sql, StWarning (''SQL failed: '' @ err), StSpinner ''Auto-correcting SQL...'',
         StCode f, StError (''Still invalid after correction: '' @ err2),
         StWarning ''No data returned for this query.'']"
proof -
  from run_analysis_start [OF assms] obtain gr s1 where
    g: "generate_sql e uq (str_join ''\<newline>'' (map (\<lambda>h. ''User: '' @ user h) (history s)))
       (emit (StSpinner ''Generating SQL...'')
          (s\<lparr>history := history s @ [\<lparr>user = uq, summary = None\<rparr>]\<rparr>)) = (gr, s1)" and
    run: "(out, s') =
      (case gr of
         Inl x \<Rightarrow> (Inl x, s1)
       | Inr sql_query \<Rightarrow>
           if truthy sql_query then
             (case execute_with_repair e (the sql_query)
                     (emit (StCode (the sql_query)) (emit (StSubheader ''Generated SQL'') s1)) of
                (Inl x, s2) \<Rightarrow> (Inl x, s2)
              | (Inr result, s2) \<Rightarrow> show_result e result uq s2)
           else (Inr (), emit (StWarning ''Gemini could not generate SQL for that query.'') s1))"
    by blast
  have ee: "df_empty empty_dataframe" by (simp add: df_empty_def empty_dataframe_def)
  from g show thesis
  proof (cases rule: generate_sql_elim)
    case (raised x)
    with run have "out = Inl x" "s' = s1" by simp_all
    with raised show thesis by (intro gen_raised [of x]) simp_all
  next
    case (no_sql res)
    with run have "out = Inr ()"
      "s' = emit (StWarning ''Gemini could not generate SQL for that query.'') s1" by simp_all
    with no_sql show thesis by (intro gen_nothing [of res]) simp_all
  next
    case (generated sql)
    show thesis
    proof (cases "sql = []")
      case True
      with run generated have "out = Inr ()"
        "s' = emit (StWarning ''Gemini could not generate SQL for that query.'') s1" by simp_all
      with generated show thesis by (intro gen_empty) simp_all
    next
      case False
      let ?s1 = "emit (StCode sql) (emit (StSubheader ''Generated SQL'') s1)"
      obtain r s2 where x: "execute_with_repair e sql ?s1 = (r, s2)"
        by (cases "execute_with_repair e sql ?s1")
      with run generated False have fin: "(out, s') =
          (case r of Inl x \<Rightarrow> (Inl x, s2) | Inr result \<Rightarrow> show_result e result uq s2)"
        by (simp split: sum.splits)
      have q: "queries ?s1 = queries s" and h: "history ?s1 = history s @ [\<lparr>user = uq, summary = None\<rparr>]"
        and p: "page ?s1 = page s @ [StSpinner ''Generating SQL...'',
                  StSubheader ''Generated SQL'', StCode sql]"
        using generated by simp_all
      from x show thesis
      proof (cases rule: execute_with_repair_elim)
        case (first_ok df)
        with fin have "show_result e df uq s2 = (out, s')" by simp
        with first_ok q h p show thesis by (intro that(4) [of sql df s2]) simp_all
      next
        case (fix_raised err x)
        with fin have "out = Inl x" "s' = s2" by simp_all
        with fix_raised q h p show thesis by (intro that(5) [of sql err x]) simp_all
      next
        case (fix_nothing err)
        with fin have "show_result e empty_dataframe uq s2 = (out, s')" by simp
        then have "out = Inr ()" "s' = emit (StWarning ''No data returned for this query.'') s2"
          using ee by (simp_all add: show_result_def)
        with fix_nothing q h p show thesis by (intro that(6) [of sql err]) simp_all
      next
        case (repaired err f df)
        with fin have "show_result e df uq s2 = (out, s')" by simp
        with repaired q h p show thesis by (intro that(7) [of sql err f df s2]) simp_all
      next
        case (repair_failed err f err2)
        with fin have "show_result e empty_dataframe uq s2 = (out, s')" by simp
        then have "out = Inr ()" "s' = emit (StWarning ''No data returned for this query.'') s2"
          using ee by (simp_all add: show_result_def)
        with repair_failed q h p show thesis by (intro that(8) [of sql err f err2]) simp_all
      qed
    qed
  qed
qed

section \<open>The repair bound: claim C1\<close>

lemma no_spinner_in_chart:
  "set chart \<subseteq> {StPlotlyChart x y} \<Longrightarrow> count_list chart (StSpinner t) = 0"
  by (auto simp: count_list_0_iff)

lemma repair_bound_paths:
  assumes "run_analysis e run_btn uq s = (out, s')"
  defines "n \<equiv> length (queries s)"
  defines "qs \<equiv> drop (length (queries s)) (queries s')"
  defines "evs \<equiv> drop (length (page s)) (page s')"
  shows "queries s' = queries s @ qs \<and> length qs \<le> 2 \<and>
     count_list evs (StSpinner ''Auto-correcting SQL...'') =
       (if qs \<noteq> [] \<and> isl (duckdb_execute e n (hd qs)) then 1 else 0) \<and>
     (length qs = 2 \<longrightarrow> isl (duckdb_execute e n (hd qs))) \<and>
     (length qs = 2 \<and> isl (duckdb_execute e (Suc n) (last qs)) \<longrightarrow>
        out = Inr () \<and> last evs = StWarning ''No data returned for this query.'' \<and>
        StError (''Still invalid after correction: '' @
                 projl (duckdb_execute e (Suc n) (last qs))) \<in> set evs \<and>
        (\<forall>d. StDataframe d \<notin> set evs) \<and> summary (last (history s')) = None)"
proof (cases "run_btn \<and> uq \<noteq> []")
  case False
  with assms(1) have "out = Inr ()" "s' = s" by (simp_all add: run_analysis_skip)
  then show ?thesis by (simp add: qs_def evs_def)
next
  case True
  then have b: "run_btn" "uq \<noteq> []" by simp_all
  from assms(1) b show ?thesis
  proof (cases rule: run_analysis_elim)
    case (gen_raised x)
    then show ?thesis by (simp add: qs_def evs_def)
  next
    case gen_empty
    then show ?thesis by (simp add: qs_def evs_def)
  next
    case (gen_nothing res)
    then show ?thesis by (simp add: qs_def evs_def)
  next
    case (first_ok sql df s2)
    from first_ok(3) have ne: "history s2 \<noteq> []" by simp
    from first_ok(2) ne show ?thesis
    proof (cases rule: show_result_elim)
      case empty
      with first_ok show ?thesis by (simp add: qs_def evs_def n_def)
    next
      case (raised x chart)
      with first_ok show ?thesis
        by (simp add: qs_def evs_def n_def no_spinner_in_chart)
    next
      case (shown v chart)
      with first_ok show ?thesis
        by (simp add: qs_def evs_def n_def no_spinner_in_chart)
    qed
  next
    case (fix_raised sql err x)
    then show ?thesis by (simp add: qs_def evs_def n_def)
  next
    case (fix_nothing sql err)
    then show ?thesis by (simp add: qs_def evs_def n_def)
  next
    case (repaired sql err f df s2)
    from repaired(4) have ne: "history s2 \<noteq> []" by simp
    from repaired(3) ne show ?thesis
    proof (cases rule: show_result_elim)
      case empty
      with repaired show ?thesis by (simp add: qs_def evs_def n_def)
    next
      case (raised x chart)
      with repaired show ?thesis
        by (simp add: qs_def evs_def n_def no_spinner_in_chart)
    next
      case (shown v chart)
      with repaired show ?thesis
        by (simp add: qs_def evs_def n_def no_spinner_in_chart)
    qed
  next
    case (repair_failed sql err f err2)
    then show ?thesis by (simp add: qs_def evs_def n_def)
  qed
qed

text \<open>
  C1. In every turn the engine is called at most twice. A repair is attempted exactly
  once when the first execution raises, and never otherwise; a second query is only
  ever executed after the first one failed. When the repaired query fails as well, the
  turn ends normally with the error shown, no table, the "no data" warning as its last
  message and no summary, and nothing is executed after it.
\<close>

theorem repair_bound:
  "let r = run_analysis e run_btn uq s;
       n = length (queries s);
       qs = drop n (queries (snd r));
       evs = drop (length (page s)) (page (snd r))
   in queries (snd r) = queries s @ qs \<and> length qs \<le> 2 \<and>
      count_list evs (StSpinner ''Auto-correcting SQL...'') =
        (if qs \<noteq> [] \<and> isl (duckdb_execute e n (hd qs)) then 1 else 0) \<and>
      (length qs = 2 \<longrightarrow> isl (duckdb_execute e n (hd qs))) \<and>
      (length qs = 2 \<and> isl (duckdb_execute e (Suc n) (last qs)) \<longrightarrow>
         fst r = Inr () \<and> last evs = StWarning ''No data returned for this query.'' \<and>
         StError (''Still invalid after correction: '' @
                  projl (duckdb_execute e (Suc n) (last qs))) \<in> set evs \<and>
         (\<forall>d. StDataframe d \<notin> set evs) \<and> summary (last (history (snd r))) = None)"
proof -
  obtain out s' where r: "run_analysis e run_btn uq s = (out, s')"
    by (cases "run_analysis e run_btn uq s")
  from repair_bound_paths [OF r] show ?thesis
    unfolding Let_def r fst_conv snd_conv .
qed


section \<open>The empty result: claim C8\<close>

lemma show_result_empty:
  "rows df = [] \<Longrightarrow>
   show_result e df uq s = (Inr (), emit (StWarning ''No data returned for this query.'') s)"
  by (simp add: show_result_def df_empty_def)

lemma empty_result_paths:
  assumes "run_analysis e run_btn uq s = (out, s')"
    and "queries s' \<noteq> queries s"
    and "duckdb_execute e (length (queries s') - 1) (last (queries s')) = Inr df"
    and "rows df = []"
  defines "evs \<equiv> drop (length (page s)) (page s')"
  shows "out = Inr () \<and> last evs = StWarning ''No data returned for this query.'' \<and>
     (\<forall>x y. StPlotlyChart x y \<notin> set evs) \<and> (\<forall>d. StDataframe d \<notin> set evs) \<and>
     StSpinner ''Summarizing insights...'' \<notin> set evs \<and>
     history s' = history s @ [\<lparr>user = uq, summary = None\<rparr>]"
proof (cases "run_btn \<and> uq \<noteq> []")
  case False
  with assms(1) have "s' = s" by (simp add: run_analysis_skip)
  with assms(2) show ?thesis by simp
next
  case True
  then have b: "run_btn" "uq \<noteq> []" by simp_all
  have e: "df_empty df" using assms(4) by (simp add: df_empty_def)
  from assms(1) b show ?thesis
  proof (cases rule: run_analysis_elim)
    case (gen_raised x)
    with assms(2) show ?thesis by simp
  next
    case gen_empty
    with assms(2) show ?thesis by simp
  next
    case (gen_nothing res)
    with assms(2) show ?thesis by simp
  next
    case (first_ok sql df' s2)
    from first_ok(3) have ne: "history s2 \<noteq> []" by simp
    from first_ok(2) have q: "queries s' = queries s2"
      by (auto simp: show_result_def set_last_summary_def Let_def
            split: if_splits prod.splits sum.splits dest!: explain_results_state)
    with first_ok assms(3) have "df' = df" by simp
    with first_ok(2) assms(4) have "out = Inr ()"
      "s' = emit (StWarning ''No data returned for this query.'') s2"
      by (simp_all add: show_result_empty)
    with first_ok show ?thesis by (simp add: evs_def)
  next
    case (fix_raised sql err x)
    with assms(3) show ?thesis by simp
  next
    case (fix_nothing sql err)
    with assms(3) show ?thesis by simp
  next
    case (repaired sql err f df' s2)
    from repaired(3) have q: "queries s' = queries s2"
      by (auto simp: show_result_def set_last_summary_def Let_def
            split: if_splits prod.splits sum.splits dest!: explain_results_state)
    with repaired assms(3) have "df' = df" by simp
    with repaired(3) assms(4) have "out = Inr ()"
      "s' = emit (StWarning ''No data returned for this query.'') s2"
      by (simp_all add: show_result_empty)
    with repaired show ?thesis by (simp add: evs_def)
  next
    case (repair_failed sql err f err2)
    with assms(3) show ?thesis by simp
  qed
qed

text \<open>
  C8. Displaying a result with zero rows shows the "no data" warning and does nothing
  else. So in every turn whose last executed query returned zero rows, the turn ends
  normally, the warning is the last message, no table and no chart are drawn, the
  summarizer is not called, and the turn is recorded without a summary.
\<close>

theorem empty_result_skips:
  "let r = run_analysis e run_btn uq s;
       s' = snd r;
       evs = drop (length (page s)) (page s')
   in (rows df = [] \<longrightarrow>
         show_result e df uq s =
           (Inr (), emit (StWarning ''No data returned for this query.'') s)) \<and>
      (queries s' \<noteq> queries s \<and>
       duckdb_execute e (length (queries s') - 1) (last (queries s')) = Inr df \<and>
       rows df = [] \<longrightarrow>
         fst r = Inr () \<and> last evs = StWarning ''No data returned for this query.'' \<and>
         (\<forall>x y. StPlotlyChart x y \<notin> set evs) \<and> (\<forall>d. StDataframe d \<notin> set evs) \<and>
         StSpinner ''Summarizing insights...'' \<notin> set evs \<and>
         history s' = history s @ [\<lparr>user = uq, summary = None\<rparr>])"
proof -
  obtain out s' where r: "run_analysis e run_btn uq s = (out, s')"
    by (cases "run_analysis e run_btn uq s")
  from empty_result_paths [OF r] show_result_empty [of df e uq s] show ?thesis
    unfolding Let_def r fst_conv snd_conv by blast
qed

section \<open>The history: claim C9\<close>

lemma history_paths:
  assumes "run_analysis e run_btn uq s = (out, s')" "run_btn" "uq \<noteq> []"
  shows "\<exists>t. history s' = history s @ [t] \<and> user t = uq \<and>
     (out \<noteq> Inr () \<longrightarrow> summary t = None) \<and>
     (summary t \<noteq> None \<longrightarrow>
        queries s' \<noteq> queries s \<and>
        (\<exists>df. duckdb_execute e (length (queries s') - 1) (last (queries s')) = Inr df \<and>
              \<not> df_empty df))"
  using assms
proof (cases rule: run_analysis_elim)
  case (gen_raised x)
  then show ?thesis by simp
next
  case gen_empty
  then show ?thesis by simp
next
  case (gen_nothing res)
  then show ?thesis by simp
next
  case (first_ok sql df s2)
  from first_ok(3) have ne: "history s2 \<noteq> []" by simp
  from first_ok(2) ne show ?thesis
  proof (cases rule: show_result_elim)
    case empty
    with first_ok show ?thesis by simp
  next
    case (raised x chart)
    with first_ok show ?thesis by simp
  next
    case (shown v chart)
    with first_ok show ?thesis by simp
  qed
next
  case (fix_raised sql err x)
  then show ?thesis by simp
next
  case (fix_nothing sql err)
  then show ?thesis by simp
next
  case (repaired sql err f df s2)
  from repaired(4) have ne: "history s2 \<noteq> []" by simp
  from repaired(3) ne show ?thesis
  proof (cases rule: show_result_elim)
    case empty
    with repaired show ?thesis by simp
  next
    case (raised x chart)
    with repaired show ?thesis by simp
  next
    case (shown v chart)
    with repaired show ?thesis by simp
  qed
next
  case (repair_failed sql err f err2)
  then show ?thesis by simp
qed

lemma run_session_history:
  "\<exists>new. history (run_session e inputs s) = history s @ new \<and>
         map user new = map snd (filter (\<lambda>(b, q). b \<and> q \<noteq> []) inputs)"
proof (induction inputs arbitrary: s)
  case Nil
  show ?case by simp
next
  case (Cons i inputs)
  obtain b q where i: "i = (b, q)" by (cases i)
  obtain out s' where r: "run_analysis e b q s = (out, s')" by (cases "run_analysis e b q s")
  have rs: "run_session e (i # inputs) s = run_session e inputs s'" by (simp add: i r)
  from Cons [of s'] obtain new where
    n: "history (run_session e inputs s') = history s' @ new"
       "map user new = map snd (filter (\<lambda>(b, q). b \<and> q \<noteq> []) inputs)"
    by blast
  show ?case
  proof (cases "b \<and> q \<noteq> []")
    case True
    then have "b" "q \<noteq> []" by simp_all
    from history_paths [OF r this] obtain t where "history s' = history s @ [t]" "user t = q"
      by blast
    with n True have "history (run_session e (i # inputs) s) = history s @ (t # new) \<and>
        map user (t # new) = map snd (filter (\<lambda>(b, q). b \<and> q \<noteq> []) (i # inputs))"
      unfolding rs by (simp add: i)
    then show ?thesis by blast
  next
    case False
    with r have "s' = s" by (simp add: run_analysis_skip)
    with n False have "history (run_session e (i # inputs) s) = history s @ new \<and>
        map user new = map snd (filter (\<lambda>(b, q). b \<and> q \<noteq> []) (i # inputs))"
      unfolding rs by (auto simp: i)
    then show ?thesis by blast
  qed
qed

text \<open>
  C9. A turn with the button pressed and a question typed appends exactly one entry,
  holding the question, behind the entries already there, which stay as they were; any
  other run of the script leaves the session alone. The new entry carries a summary
  only if the turn ran to its end and the last query executed in it returned a result
  that is not empty: a turn that raises, one in which no SQL is generated, and one
  whose last query failed are recorded without a summary. Over a whole session the
  history is the old history followed by the submitted questions in their order.
\<close>

theorem history_append_only:
  "let r = run_analysis e run_btn uq s; s' = snd r
   in (if run_btn \<and> uq \<noteq> []
       then \<exists>t. history s' = history s @ [t] \<and> user t = uq \<and>
              (fst r \<noteq> Inr () \<longrightarrow> summary t = None) \<and>
              (summary t \<noteq> None \<longrightarrow>
                 queries s' \<noteq> queries s \<and>
                 (\<exists>df. duckdb_execute e (length (queries s') - 1) (last (queries s')) = Inr df \<and>
                       \<not> df_empty df))
       else s' = s) \<and>
      (\<exists>new. history (run_session e inputs s) = history s @ new \<and>
             map user new = map snd (filter (\<lambda>(b, q). b \<and> q \<noteq> []) inputs))"
proof -
  obtain out s' where r: "run_analysis e run_btn uq s = (out, s')"
    by (cases "run_analysis e run_btn uq s")
  show ?thesis
  proof (cases "run_btn \<and> uq \<noteq> []")
    case True
    then have "run_btn" "uq \<noteq> []" by simp_all
    from history_paths [OF r this] run_session_history [of e inputs s] True show ?thesis
      unfolding Let_def r fst_conv snd_conv by simp
  next
    case False
    with r have "s' = s" by (simp add: run_analysis_skip)
    with run_session_history [of e inputs s] False show ?thesis
      unfolding Let_def r fst_conv snd_conv by simp
  qed
qed

section \<open>Witnesses for the claims about a turn\<close>

lemmas run_defs =
  run_analysis_def generate_sql_def gemini_call_def scripted_def answer_def start_def
  extract_text_def and_then_def clean_text_def str_strip_def strip_chars_def fence_def
  is_ascii_letter_def category_sub_def category_map_def quoted_def apostrophe_def
  date_sub_def placeholder_def date_literal_def execute_with_repair_def execute_def
  fix_sql_def show_result_def emit_def df_empty_def empty_dataframe_def explain_results_def
  set_last_summary_def num_cols_def df_head_def Let_def

lemma both_fail_run:
  "run_analysis both_fail True ''q'' start =
     (Inr (),
      \<lparr>history = [\<lparr>user = ''q'', summary = None\<rparr>],
       page = [StSpinner ''Generating SQL...'', StSubheader ''Generated SQL'',
               StCode ''SELECT nope FROM olist'', StWarning ''SQL failed: Binder Error'',
               StSpinner ''Auto-correcting SQL...'', StCode ''SELECT nada FROM olist'',
               StError ''Still invalid after correction: Binder Error'',
               StWarning ''No data returned for this query.''],
       prompts = [generate_prompt ''q'' [], fix_prompt ''SELECT nope FROM olist'' ''Binder Error''],
       queries = [''SELECT nope FROM olist'', ''SELECT nada FROM olist'']\<rparr>)"
  by (simp add: both_fail_def run_defs)

theorem repair_bound_witness:
  "queries (snd (run_analysis both_fail True ''q'' start)) =
     [''SELECT nope FROM olist'', ''SELECT nada FROM olist''] \<and>
   isl (duckdb_execute both_fail 0 ''SELECT nope FROM olist'') \<and>
   isl (duckdb_execute both_fail 1 ''SELECT nada FROM olist'') \<and>
   count_list (page (snd (run_analysis both_fail True ''q'' start)))
     (StSpinner ''Auto-correcting SQL...'') = 1 \<and>
   fst (run_analysis both_fail True ''q'' start) = Inr () \<and>
   last (page (snd (run_analysis both_fail True ''q'' start))) =
     StWarning ''No data returned for this query.'' \<and>
   summary (last (history (snd (run_analysis both_fail True ''q'' start)))) = None"
  using repair_bound [of both_fail True "''q''" start]
  unfolding both_fail_run Let_def
  by (simp add: both_fail_def scripted_def start_def)

lemma no_rows_run:
  "run_analysis no_rows True ''q'' start =
     (Inr (),
      \<lparr>history = [\<lparr>user = ''q'', summary = None\<rparr>],
       page = [StSpinner ''Generating SQL...'', StSubheader ''Generated SQL'',
               StCode ''SELECT price FROM olist WHERE 1 = 0'',
               StWarning ''No data returned for this query.''],
       prompts = [generate_prompt ''q'' []],
       queries = [''SELECT price FROM olist WHERE 1 = 0'']\<rparr>)"
  by (simp add: no_rows_def run_defs)

theorem empty_result_skips_witness:
  "rows \<lparr>columns = [(''price'', True)], rows = []\<rparr> = [] \<and>
   queries (snd (run_analysis no_rows True ''q'' start)) \<noteq> queries start \<and>
   duckdb_execute no_rows 0 ''SELECT price FROM olist WHERE 1 = 0'' =
     Inr \<lparr>columns = [(''price'', True)], rows = []\<rparr> \<and>
   fst (run_analysis no_rows True ''q'' start) = Inr () \<and>
   page (snd (run_analysis no_rows True ''q'' start)) =
     [StSpinner ''Generating SQL...'', StSubheader ''Generated SQL'',
      StCode ''SELECT price FROM olist WHERE 1 = 0'',
      StWarning ''No data returned for this query.''] \<and>
   history (snd (run_analysis no_rows True ''q'' start)) = [\<lparr>user = ''q'', summary = None\<rparr>]"
  using empty_result_skips [where e = no_rows and run_btn = True and uq = "''q''"
      and s = start and df = "\<lparr>columns = [(''price'', True)], rows = []\<rparr>"]
  unfolding no_rows_run Let_def
  by (simp add: no_rows_def scripted_def start_def)

lemma one_row_run:
  "run_analysis one_row True ''q'' start =
     (Inr (),
      \<lparr>history = [\<lparr>user = ''q'', summary = Some (JStr ''One row.'')\<rparr>],
       page = [StSpinner ''Generating SQL...'', StSubheader ''Generated SQL'',
               StCode ''SELECT count(*) AS n FROM olist'',
               StDataframe \<lparr>columns = [(''n'', True)], rows = [[''7'']]\<rparr>,
               StPlotlyChart ''n'' ''n'', StSpinner ''Summarizing insights...'',
               StWrite (JStr ''**Insight Summary:**''), StWrite (JStr ''One row.'')],
       prompts = [generate_prompt ''q'' [], explain_prompt ''q'' []],
       queries = [''SELECT count(*) AS n FROM olist'']\<rparr>)"
  by (simp add: one_row_def run_defs)

lemma one_row_session:
  "history (run_session one_row [(True, ''q''), (False, ''r''), (True, [])] start) =
     [\<lparr>user = ''q'', summary = Some (JStr ''One row.'')\<rparr>]"
  by (simp add: one_row_run run_analysis_skip)

theorem history_append_only_witness:
  "history (snd (run_analysis one_row True ''q'' start)) =
     history start @ [\<lparr>user = ''q'', summary = Some (JStr ''One row.'')\<rparr>] \<and>
   fst (run_analysis one_row True ''q'' start) = Inr () \<and>
   duckdb_execute one_row 0 ''SELECT count(*) AS n FROM olist'' =
     Inr \<lparr>columns = [(''n'', True)], rows = [[''7'']]\<rparr> \<and>
   \<not> df_empty \<lparr>columns = [(''n'', True)], rows = [[''7'']]\<rparr> \<and>
   map user (history (run_session one_row [(True, ''q''), (False, ''r''), (True, [])] start)) =
     [''q'']"
  using history_append_only [where e = one_row and run_btn = True and uq = "''q''"
      and s = start and inputs = "[(True, ''q''), (False, ''r''), (True, [])]"]
  unfolding one_row_run one_row_session Let_def
  by (simp add: one_row_def scripted_def start_def df_empty_def)

section \<open>Failures of the completion service: claim C2\<close>

lemma gemini_call_ConnFail:
  "requests_post e (length (prompts s)) p = ConnFail \<Longrightarrow>
   fst (gemini_call e p s) = Inl ConnectionError"
  by (simp add: gemini_call_def)

lemma gemini_call_answers:
  assumes "\<forall>n p. \<exists>status res. requests_post e n p = Response status (Some res)"
  shows "\<exists>res. gemini_call e p s = (Inr res, s\<lparr>prompts := prompts s @ [p]\<rparr>)"
proof -
  from assms obtain status res where
    "requests_post e (length (prompts s)) p = Response status (Some res)" by blast
  then show ?thesis using gemini_call_json by blast
qed

lemma generate_sql_returns:
  assumes "\<forall>n p. \<exists>status res. requests_post e n p = Response status (Some res)"
  shows "\<not> isl (fst (generate_sql e uq ht s))"
proof -
  from gemini_call_answers [OF assms] obtain res where
    "gemini_call e (generate_prompt uq ht) s =
       (Inr res, s\<lparr>prompts := prompts s @ [generate_prompt uq ht]\<rparr>)" by blast
  then show ?thesis
    by (cases "and_then (extract_text res) clean_sql") (simp_all add: generate_sql_def)
qed

lemma fix_sql_returns:
  assumes "\<forall>n p. \<exists>status res. requests_post e n p = Response status (Some res)"
  shows "\<not> isl (fst (fix_sql e q err s))"
proof -
  from gemini_call_answers [OF assms] obtain res where
    "gemini_call e (fix_prompt q err) s =
       (Inr res, s\<lparr>prompts := prompts s @ [fix_prompt q err]\<rparr>)" by blast
  then show ?thesis
    by (cases "and_then (extract_text res) clean_sql") (simp_all add: fix_sql_def)
qed

lemma explain_results_returns:
  assumes "\<forall>n p. \<exists>status res. requests_post e n p = Response status (Some res)"
  shows "\<not> isl (fst (explain_results e df uq s))"
proof -
  from gemini_call_answers [OF assms] obtain res where
    "gemini_call e (explain_prompt uq (df_to_csv e (df_head 10 df))) s =
       (Inr res, s\<lparr>prompts := prompts s @ [explain_prompt uq (df_to_csv e (df_head 10 df))]\<rparr>)"
    by blast
  then show ?thesis
    by (cases "extract_text res") (simp_all add: explain_results_def)
qed

lemma execute_with_repair_returns:
  assumes "\<forall>n p. \<exists>status res. requests_post e n p = Response status (Some res)"
  shows "\<not> isl (fst (execute_with_repair e sql s))"
proof (cases "duckdb_execute e (length (queries s)) (date_sub (max_date e) (category_sub sql))")
  case (Inr df)
  then show ?thesis by (simp add: execute_with_repair_def execute_def)
next
  case (Inl err)
  define q1 where "q1 = date_sub (max_date e) (category_sub sql)"
  define sa where "sa = emit (StSpinner ''Auto-correcting SQL...'')
               (emit (StWarning (''SQL failed: '' @ err)) (s\<lparr>queries := queries s @ [q1]\<rparr>))"
  have step: "execute_with_repair e sql s =
      (case fix_sql e q1 err sa of
         (Inl x, s2) \<Rightarrow> (Inl x, s2)
       | (Inr fixed_sql, s2) \<Rightarrow>
           if truthy fixed_sql then
             (case execute e (the fixed_sql) (emit (StCode (the fixed_sql)) s2) of
                (Inr result, s3) \<Rightarrow> (Inr result, s3)
              | (Inl err2, s3) \<Rightarrow>
                  (Inr empty_dataframe,
                   emit (StError (''Still invalid after correction: '' @ err2)) s3))
           else (Inr empty_dataframe, s2))"
    unfolding execute_with_repair_def Let_def execute_def sa_def q1_def
    using Inl by simp
  obtain fr s2 where f: "fix_sql e q1 err sa = (fr, s2)" by (cases "fix_sql e q1 err sa")
  with fix_sql_returns [OF assms, of q1 err sa] obtain fo where "fr = Inr fo"
    by (cases fr) auto
  with f show ?thesis
    unfolding step by (simp add: execute_def split: sum.splits)
qed

lemma show_result_returns:
  assumes "\<forall>n p. \<exists>status res. requests_post e n p = Response status (Some res)"
    and "history s \<noteq> []"
  shows "fst (show_result e df uq s) = Inr ()"
proof -
  obtain r s' where x: "show_result e df uq s = (r, s')" by (cases "show_result e df uq s")
  from x assms(2) have "r = Inr ()"
  proof (cases rule: show_result_elim)
    case (raised x chart)
    define s2 where "s2 = emit (StSpinner ''Summarizing insights...'')
        (if length (num_cols df) \<ge> 1
         then emit (StPlotlyChart (fst (hd (columns df))) (hd (num_cols df)))
                (emit (StDataframe (df_head 20 df)) s)
         else emit (StDataframe (df_head 20 df)) s)"
    obtain er s3 where er: "explain_results e df uq s2 = (er, s3)"
      by (cases "explain_results e df uq s2")
    with explain_results_returns [OF assms(1), of df uq s2] obtain v where v: "er = Inr v"
      by (cases er) auto
    have h: "history s3 \<noteq> []"
      using explain_results_state [OF er] assms(2) by (simp add: s2_def)
    from x raised(1) have "(r, s') =
        set_last_summary v
          (emit (StWrite v) (emit (StWrite (JStr ''**Insight Summary:**'')) s3))"
      unfolding show_result_def Let_def s2_def [symmetric] er v by simp
    with h have "r = Inr ()" by (simp add: set_last_summary_def)
    with raised show ?thesis by simp
  qed simp_all
  with x show ?thesis by simp
qed

lemma run_analysis_returns:
  assumes "\<forall>n p. \<exists>status res. requests_post e n p = Response status (Some res)"
  shows "fst (run_analysis e run_btn uq s) = Inr ()"
proof (cases "run_btn \<and> uq \<noteq> []")
  case False
  then show ?thesis by (simp add: run_analysis_skip)
next
  case True
  then have b: "run_btn" "uq \<noteq> []" by simp_all
  obtain out s' where r: "run_analysis e run_btn uq s = (out, s')"
    by (cases "run_analysis e run_btn uq s")
  from run_analysis_start [OF r b] obtain gr s1 where
    g: "generate_sql e uq (str_join ''\<newline>'' (map (\<lambda>h. ''User: '' @ user h) (history s)))
       (emit (StSpinner ''Generating SQL...'')
          (s\<lparr>history := history s @ [\<lparr>user = uq, summary = None\<rparr>]\<rparr>)) = (gr, s1)" and
    run: "(out, s') =
      (case gr of
         Inl x \<Rightarrow> (Inl x, s1)
       | Inr sql_query \<Rightarrow>
           if truthy sql_query then
             (case execute_with_repair e (the sql_query)
                     (emit (StCode (the sql_query)) (emit (StSubheader ''Generated SQL'') s1)) of
                (Inl x, s2) \<Rightarrow> (Inl x, s2)
              | (Inr result, s2) \<Rightarrow> show_result e result uq s2)
           else (Inr (), emit (StWarning ''Gemini could not generate SQL for that query.'') s1))"
    by blast
  have "\<not> isl (fst (generate_sql e uq
       (str_join ''\<newline>'' (map (\<lambda>h. ''User: '' @ user h) (history s)))
       (emit (StSpinner ''Generating SQL...'')
          (s\<lparr>history := history s @ [\<lparr>user = uq, summary = None\<rparr>]\<rparr>))))"
    by (rule generate_sql_returns [OF assms])
  then have "\<not> isl gr" unfolding g by simp
  then obtain go where go: "gr = Inr go" by (cases gr) auto
  from generate_sql_cases [OF g] have h1: "history s1 \<noteq> []" by simp
  have "out = Inr ()"
  proof (cases "truthy go")
    case False
    with run go show ?thesis by simp
  next
    case True
    obtain rr s2 where x: "execute_with_repair e (the go)
        (emit (StCode (the go)) (emit (StSubheader ''Generated SQL'') s1)) = (rr, s2)"
      by (cases "execute_with_repair e (the go)
        (emit (StCode (the go)) (emit (StSubheader ''Generated SQL'') s1))")
    have "\<not> isl (fst (execute_with_repair e (the go)
        (emit (StCode (the go)) (emit (StSubheader ''Generated SQL'') s1))))"
      by (rule execute_with_repair_returns [OF assms])
    then have "\<not> isl rr" unfolding x by simp
    then obtain df where df: "rr = Inr df" by (cases rr) auto
    from execute_with_repair_cases [OF x] h1 have "history s2 \<noteq> []" by auto
    from show_result_returns [OF assms this, of df uq]
    have "fst (show_result e df uq s2) = Inr ()" .
    moreover from run go True x df have "(out, s') = show_result e df uq s2" by simp
    ultimately show ?thesis by (metis fst_conv)
  qed
  with r show ?thesis by simp
qed

text \<open>
  C2, as stated, fails: \<open>gemini_call\<close> is called outside the \<open>try\<close> blocks, so a failed
  request and a body that is not JSON raise through \<open>generate_sql\<close> and end the turn.
\<close>

theorem service_failure_raises:
  "fst (generate_sql offline ''q'' [] start) = Inl ConnectionError \<and>
   fst (run_analysis offline True ''q'' start) = Inl ConnectionError \<and>
   fst (generate_sql garbled ''q'' [] start) = Inl JSONDecodeError \<and>
   fst (fix_sql garbled ''SELECT 1'' ''Binder Error'' start) = Inl JSONDecodeError \<and>
   fst (explain_results offline empty_dataframe ''q'' start) = Inl ConnectionError"
  by (simp add: offline_def garbled_def run_defs)

text \<open>
  C2, amended. Whenever the service delivers a response whose body is JSON, whatever
  its status code, none of the three callers raises, and a turn in which every request
  is answered like that runs to its end. If the text cannot be extracted
  from that body, or cannot be cleaned, \<open>generate_sql\<close> shows "Gemini could not generate
  SQL." with the response and returns \<open>None\<close>, and \<open>fix_sql\<close> returns \<open>None\<close>; if it cannot
  be extracted, \<open>explain_results\<close> returns "Could not generate summary.".
\<close>

theorem json_failures_contained:
  "(requests_post e (length (prompts s)) (generate_prompt uq ht) = Response status (Some res) \<longrightarrow>
      \<not> isl (fst (generate_sql e uq ht s)) \<and>
      (isl (and_then (extract_text res) clean_sql) \<longrightarrow>
         generate_sql e uq ht s =
           (Inr None,
            emit (StWrite res) (emit (StError ''Gemini could not generate SQL.'')
              (s\<lparr>prompts := prompts s @ [generate_prompt uq ht]\<rparr>))))) \<and>
   (requests_post e (length (prompts s)) (fix_prompt q err) = Response status (Some res) \<longrightarrow>
      \<not> isl (fst (fix_sql e q err s)) \<and>
      (isl (and_then (extract_text res) clean_sql) \<longrightarrow>
         fix_sql e q err s = (Inr None, s\<lparr>prompts := prompts s @ [fix_prompt q err]\<rparr>))) \<and>
   (requests_post e (length (prompts s)) (explain_prompt uq (df_to_csv e (df_head 10 df))) =
      Response status (Some res) \<longrightarrow>
      \<not> isl (fst (explain_results e df uq s)) \<and>
      (isl (extract_text res) \<longrightarrow>
         fst (explain_results e df uq s) = Inr (JStr ''Could not generate summary.''))) \<and>
   ((\<forall>n p. \<exists>status res. requests_post e n p = Response status (Some res)) \<longrightarrow>
      fst (run_analysis e run_btn uq s) = Inr ())"
proof -
  have g: "\<not> isl (fst (generate_sql e uq ht s)) \<and>
      (isl (and_then (extract_text res) clean_sql) \<longrightarrow>
         generate_sql e uq ht s =
           (Inr None,
            emit (StWrite res) (emit (StError ''Gemini could not generate SQL.'')
              (s\<lparr>prompts := prompts s @ [generate_prompt uq ht]\<rparr>))))"
    if "requests_post e (length (prompts s)) (generate_prompt uq ht) = Response status (Some res)"
    using gemini_call_json [OF that]
    by (cases "and_then (extract_text res) clean_sql") (simp_all add: generate_sql_def)
  have f: "\<not> isl (fst (fix_sql e q err s)) \<and>
      (isl (and_then (extract_text res) clean_sql) \<longrightarrow>
         fix_sql e q err s = (Inr None, s\<lparr>prompts := prompts s @ [fix_prompt q err]\<rparr>))"
    if "requests_post e (length (prompts s)) (fix_prompt q err) = Response status (Some res)"
    using gemini_call_json [OF that]
    by (cases "and_then (extract_text res) clean_sql") (simp_all add: fix_sql_def)
  have x: "\<not> isl (fst (explain_results e df uq s)) \<and>
      (isl (extract_text res) \<longrightarrow>
         fst (explain_results e df uq s) = Inr (JStr ''Could not generate summary.''))"
    if "requests_post e (length (prompts s)) (explain_prompt uq (df_to_csv e (df_head 10 df))) =
      Response status (Some res)"
    using gemini_call_json [OF that]
    by (cases "extract_text res") (simp_all add: explain_results_def)
  from g f x run_analysis_returns [of e run_btn uq s] show ?thesis by blast
qed

theorem json_failures_contained_witness:
  "requests_post quota 0 (generate_prompt ''q'' []) =
     Response 429 (Some (JObj [(''error'', JObj [(''code'', JInt 429)])])) \<and>
   isl (and_then (extract_text (JObj [(''error'', JObj [(''code'', JInt 429)])])) clean_sql) \<and>
   generate_sql quota ''q'' [] start =
     (Inr None,
      emit (StWrite (JObj [(''error'', JObj [(''code'', JInt 429)])]))
        (emit (StError ''Gemini could not generate SQL.'')
           (start\<lparr>prompts := prompts start @ [generate_prompt ''q'' []]\<rparr>))) \<and>
   requests_post quota 0 (fix_prompt ''SELECT 1'' ''Binder Error'') =
     Response 429 (Some (JObj [(''error'', JObj [(''code'', JInt 429)])])) \<and>
   fst (fix_sql quota ''SELECT 1'' ''Binder Error'' start) = Inr None \<and>
   requests_post quota 0 (explain_prompt ''q'' (df_to_csv quota (df_head 10 empty_dataframe))) =
     Response 429 (Some (JObj [(''error'', JObj [(''code'', JInt 429)])])) \<and>
   isl (extract_text (JObj [(''error'', JObj [(''code'', JInt 429)])])) \<and>
   fst (explain_results quota empty_dataframe ''q'' start) =
     Inr (JStr ''Could not generate summary.'') \<and>
   fst (run_analysis quota True ''q'' start) = Inr ()"
proof -
  let ?res = "JObj [(''error'', JObj [(''code'', JInt 429)])]"
  have p: "requests_post quota (length (prompts start)) p = Response 429 (Some ?res)" for p
    by (simp add: quota_def start_def)
  have a: "\<forall>n p. \<exists>status res. requests_post quota n p = Response status (Some res)"
    by (simp add: quota_def)
  have l: "length (prompts start) = 0" by (simp add: start_def)
  have i: "isl (and_then (extract_text ?res) clean_sql)" "isl (extract_text ?res)"
    by (simp_all add: extract_text_def and_then_def)
  from json_failures_contained [where e = quota and s = start and uq = "''q''" and ht = "[]"
      and status = 429 and res = ?res and q = "''SELECT 1''" and err = "''Binder Error''"
      and df = empty_dataframe and run_btn = True] p i a
  have "generate_sql quota ''q'' [] start =
     (Inr None,
      emit (StWrite ?res)
        (emit (StError ''Gemini could not generate SQL.'')
           (start\<lparr>prompts := prompts start @ [generate_prompt ''q'' []]\<rparr>)))"
    and "fix_sql quota ''SELECT 1'' ''Binder Error'' start =
      (Inr None, start\<lparr>prompts := prompts start @ [fix_prompt ''SELECT 1'' ''Binder Error'']\<rparr>)"
    and "fst (explain_results quota empty_dataframe ''q'' start) =
     Inr (JStr ''Could not generate summary.'')"
    and "fst (run_analysis quota True ''q'' start) = Inr ()"
    by blast+
  with p [unfolded l] i show ?thesis by simp
qed

section \<open>The repaired query and the repair prompt: claims C3 and C10\<close>

lemma generate_sql_text:
  assumes "requests_post e (length (prompts s)) (generate_prompt uq ht) =
             Response status (Some res)"
    and "extract_text res = Inr (JStr text)"
  shows "generate_sql e uq ht s =
           (Inr (Some (clean_text text)), s\<lparr>prompts := prompts s @ [generate_prompt uq ht]\<rparr>)"
  using gemini_call_json [OF assms(1)] assms(2)
  by (simp add: generate_sql_def and_then_def)

lemma fix_sql_text:
  assumes "requests_post e (length (prompts s)) (fix_prompt q err) = Response status (Some res)"
    and "extract_text res = Inr (JStr text)"
  shows "fix_sql e q err s =
           (Inr (Some (date_sub (max_date e) (clean_text text))),
            s\<lparr>prompts := prompts s @ [fix_prompt q err]\<rparr>)"
  using gemini_call_json [OF assms(1)] assms(2)
  by (simp add: fix_sql_def and_then_def)

lemma show_result_frame:
  "queries (snd (show_result e df uq s)) = queries s \<and>
   prefix (prompts s) (prompts (snd (show_result e df uq s)))"
proof -
  obtain r s' where x: "show_result e df uq s = (r, s')" by (cases "show_result e df uq s")
  from show_result_cases [OF x] have "queries s' = queries s \<and> prefix (prompts s) (prompts s')"
    by auto
  with x show ?thesis by simp
qed

lemma execute_with_repair_failing:
  assumes "duckdb_execute e (length (queries s)) (date_sub (max_date e) (category_sub sql)) =
             Inl err"
  shows "prompts (snd (execute_with_repair e sql s)) =
           prompts s @ [fix_prompt (date_sub (max_date e) (category_sub sql)) err]"
proof -
  obtain r s' where x: "execute_with_repair e sql s = (r, s')"
    by (cases "execute_with_repair e sql s")
  from execute_with_repair_cases [OF x] assms
  have "prompts s' = prompts s @ [fix_prompt (date_sub (max_date e) (category_sub sql)) err]"
    by auto
  with x show ?thesis by simp
qed

lemma execute_with_repair_repaired:
  assumes "duckdb_execute e (length (queries s)) (date_sub (max_date e) (category_sub sql)) =
             Inl err"
    and "requests_post e (length (prompts s))
           (fix_prompt (date_sub (max_date e) (category_sub sql)) err) =
             Response status (Some res)"
    and "extract_text res = Inr (JStr text)"
    and "date_sub (max_date e) (clean_text text) \<noteq> []"
  shows "queries (snd (execute_with_repair e sql s)) =
           queries s @ [date_sub (max_date e) (category_sub sql),
                        date_sub (max_date e) (clean_text text)]"
proof -
  define q1 where "q1 = date_sub (max_date e) (category_sub sql)"
  define sa where "sa = emit (StSpinner ''Auto-correcting SQL...'')
               (emit (StWarning (''SQL failed: '' @ err)) (s\<lparr>queries := queries s @ [q1]\<rparr>))"
  have step: "execute_with_repair e sql s =
      (case fix_sql e q1 err sa of
         (Inl x, s2) \<Rightarrow> (Inl x, s2)
       | (Inr fixed_sql, s2) \<Rightarrow>
           if truthy fixed_sql then
             (case execute e (the fixed_sql) (emit (StCode (the fixed_sql)) s2) of
                (Inr result, s3) \<Rightarrow> (Inr result, s3)
              | (Inl err2, s3) \<Rightarrow>
                  (Inr empty_dataframe,
                   emit (StError (''Still invalid after correction: '' @ err2)) s3))
           else (Inr empty_dataframe, s2))"
    unfolding execute_with_repair_def Let_def execute_def sa_def q1_def
    using assms(1) by simp
  have sa: "prompts sa = prompts s" "queries sa = queries s @ [q1]"
    by (simp_all add: sa_def)
  have "requests_post e (length (prompts sa)) (fix_prompt q1 err) = Response status (Some res)"
    using assms(2) by (simp add: sa q1_def)
  from fix_sql_text [OF this assms(3)]
  have f: "fix_sql e q1 err sa =
      (Inr (Some (date_sub (max_date e) (clean_text text))),
       sa\<lparr>prompts := prompts sa @ [fix_prompt q1 err]\<rparr>)" .
  show ?thesis
    unfolding step f using assms(4)
    by (simp add: execute_def sa q1_def split: sum.splits)
qed

lemma run_analysis_generated:
  assumes "uq \<noteq> []"
    and "requests_post e (length (prompts s))
           (generate_prompt uq (str_join ''\<newline>'' (map (\<lambda>h. ''User: '' @ user h) (history s)))) =
             Response status (Some res)"
    and "extract_text res = Inr (JStr text)"
    and "clean_text text \<noteq> []"
  obtains s1 where
    "prompts s1 = prompts s @
       [generate_prompt uq (str_join ''\<newline>'' (map (\<lambda>h. ''User: '' @ user h) (history s)))]"
    "queries s1 = queries s"
    "run_analysis e True uq s =
       (case execute_with_repair e (clean_text text) s1 of
          (Inl x, s2) \<Rightarrow> (Inl x, s2)
        | (Inr result, s2) \<Rightarrow> show_result e result uq s2)"
proof -
  define ht where "ht = str_join ''\<newline>'' (map (\<lambda>h. ''User: '' @ user h) (history s))"
  define s0 where "s0 = emit (StSpinner ''Generating SQL...'')
               (s\<lparr>history := history s @ [\<lparr>user = uq, summary = None\<rparr>]\<rparr>)"
  define s1 where "s1 = emit (StCode (clean_text text)) (emit (StSubheader ''Generated SQL'')
               (s0\<lparr>prompts := prompts s0 @ [generate_prompt uq ht]\<rparr>))"
  have step: "run_analysis e True uq s =
      (case generate_sql e uq ht s0 of
         (Inl x, s1) \<Rightarrow> (Inl x, s1)
       | (Inr sql_query, s1) \<Rightarrow>
           if truthy sql_query then
             (case execute_with_repair e (the sql_query)
                     (emit (StCode (the sql_query)) (emit (StSubheader ''Generated SQL'') s1)) of
                (Inl x, s2) \<Rightarrow> (Inl x, s2)
              | (Inr result, s2) \<Rightarrow> show_result e result uq s2)
           else (Inr (), emit (StWarning ''Gemini could not generate SQL for that query.'') s1))"
    unfolding run_analysis_def Let_def s0_def ht_def using assms(1) by simp
  have p0: "prompts s0 = prompts s" by (simp add: s0_def)
  have "requests_post e (length (prompts s0)) (generate_prompt uq ht) =
          Response status (Some res)"
    using assms(2) by (simp add: p0 ht_def)
  from generate_sql_text [OF this assms(3)]
  have g: "generate_sql e uq ht s0 =
      (Inr (Some (clean_text text)), s0\<lparr>prompts := prompts s0 @ [generate_prompt uq ht]\<rparr>)" .
  have "run_analysis e True uq s =
       (case execute_with_repair e (clean_text text) s1 of
          (Inl x, s2) \<Rightarrow> (Inl x, s2)
        | (Inr result, s2) \<Rightarrow> show_result e result uq s2)"
    unfolding step g s1_def using assms(4) by simp
  moreover have "prompts s1 = prompts s @ [generate_prompt uq ht]" "queries s1 = queries s"
    by (simp_all add: s1_def s0_def)
  ultimately show thesis using that unfolding ht_def by blast
qed

lemma run_analysis_after_repair:
  assumes "run_analysis e True uq s =
       (case execute_with_repair e sql s1 of
          (Inl x, s2) \<Rightarrow> (Inl x, s2)
        | (Inr result, s2) \<Rightarrow> show_result e result uq s2)"
  shows "queries (snd (run_analysis e True uq s)) = queries (snd (execute_with_repair e sql s1)) \<and>
         prefix (prompts (snd (execute_with_repair e sql s1)))
                (prompts (snd (run_analysis e True uq s)))"
proof -
  obtain r s2 where x: "execute_with_repair e sql s1 = (r, s2)"
    by (cases "execute_with_repair e sql s1")
  show ?thesis
  proof (cases r)
    case (Inl a)
    with assms x show ?thesis by simp
  next
    case (Inr df)
    with assms x show_result_frame [of e df uq s2] show ?thesis by simp
  qed
qed

text \<open>
  C3. In a turn whose generated SQL fails in the engine and whose repair returns a text,
  the two queries given to the engine are: first the sanitized generated text after the
  category substitution and then the date substitution; second the sanitized repair
  text after the date substitution alone.
\<close>

theorem repair_substitutions:
  assumes "uq \<noteq> []"
    and "requests_post e (length (prompts s))
           (generate_prompt uq (str_join ''\<newline>'' (map (\<lambda>h. ''User: '' @ user h) (history s)))) =
             Response status (Some res)"
    and "extract_text res = Inr (JStr text)"
    and "clean_text text \<noteq> []"
    and "duckdb_execute e (length (queries s))
           (date_sub (max_date e) (category_sub (clean_text text))) = Inl err"
    and "requests_post e (Suc (length (prompts s)))
           (fix_prompt (date_sub (max_date e) (category_sub (clean_text text))) err) =
             Response status' (Some res')"
    and "extract_text res' = Inr (JStr text')"
    and "date_sub (max_date e) (clean_text text') \<noteq> []"
  shows "queries (snd (run_analysis e True uq s)) =
           queries s @ [date_sub (max_date e) (category_sub (clean_text text)),
                        date_sub (max_date e) (clean_text text')]"
proof -
  from run_analysis_generated [OF assms(1-4)] obtain s1 where
    s1: "prompts s1 = prompts s @
       [generate_prompt uq (str_join ''\<newline>'' (map (\<lambda>h. ''User: '' @ user h) (history s)))]"
      "queries s1 = queries s" and
    run: "run_analysis e True uq s =
       (case execute_with_repair e (clean_text text) s1 of
          (Inl x, s2) \<Rightarrow> (Inl x, s2)
        | (Inr result, s2) \<Rightarrow> show_result e result uq s2)"
    by blast
  have "queries (snd (execute_with_repair e (clean_text text) s1)) =
      queries s1 @ [date_sub (max_date e) (category_sub (clean_text text)),
                    date_sub (max_date e) (clean_text text')]"
    using assms(5-8) by (intro execute_with_repair_repaired) (simp_all add: s1)
  with run_analysis_after_repair [OF run] s1 show ?thesis by simp
qed


lemma repair_world_run:
  "run_analysis repair_world True ''q'' start =
     (Inr (),
      \<lparr>history = [\<lparr>user = ''q'', summary = None\<rparr>],
       page = [StSpinner ''Generating SQL...'', StSubheader ''Generated SQL'',
               StCode ''SELECT n FROM olist WHERE c = 'toys' AND d < CURRENT_DATE;'',
               StWarning ''SQL failed: Binder Error'', StSpinner ''Auto-correcting SQL...'',
               StCode ''SELECT 1 FROM olist WHERE c = 'toys' AND d < DATE '2018-09-03';'',
               StWarning ''No data returned for this query.''],
       prompts = [generate_prompt ''q'' [],
                  fix_prompt
                    ''SELECT n FROM olist WHERE c = 'brinquedos' AND d < DATE '2018-09-03';''
                    ''Binder Error''],
       queries = [''SELECT n FROM olist WHERE c = 'brinquedos' AND d < DATE '2018-09-03';'',
                  ''SELECT 1 FROM olist WHERE c = 'toys' AND d < DATE '2018-09-03';'']\<rparr>)"
  by (simp add: repair_world_def run_defs)

lemma repair_world_texts:
  "clean_text ''```sql\<newline>SELECT n FROM olist WHERE c = 'toys' AND d < CURRENT_DATE;\<newline>```'' =
     ''SELECT n FROM olist WHERE c = 'toys' AND d < CURRENT_DATE;''"
  "category_sub ''SELECT n FROM olist WHERE c = 'toys' AND d < CURRENT_DATE;'' =
     ''SELECT n FROM olist WHERE c = 'brinquedos' AND d < CURRENT_DATE;''"
  "date_sub ''2018-09-03''
     ''SELECT n FROM olist WHERE c = 'brinquedos' AND d < CURRENT_DATE;'' =
     ''SELECT n FROM olist WHERE c = 'brinquedos' AND d < DATE '2018-09-03';''"
  "clean_text ''SELECT 1 FROM olist WHERE c = 'toys' AND d < CURRENT_DATE;'' =
     ''SELECT 1 FROM olist WHERE c = 'toys' AND d < CURRENT_DATE;''"
  "date_sub ''2018-09-03''
     ''SELECT 1 FROM olist WHERE c = 'toys' AND d < CURRENT_DATE;'' =
     ''SELECT 1 FROM olist WHERE c = 'toys' AND d < DATE '2018-09-03';''"
  by (simp_all add: run_defs)

lemma extract_text_answer:
  "answer v = Response 200 (Some res) \<Longrightarrow> extract_text res = Inr v"
  by (auto simp: answer_def extract_text_def and_then_def)

theorem repair_substitutions_witness:
  "requests_post repair_world 0 (generate_prompt ''q'' []) =
     answer (JStr ''```sql\<newline>SELECT n FROM olist WHERE c = 'toys' AND d < CURRENT_DATE;\<newline>```'') \<and>
   duckdb_execute repair_world 0
     ''SELECT n FROM olist WHERE c = 'brinquedos' AND d < DATE '2018-09-03';'' =
     Inl ''Binder Error'' \<and>
   requests_post repair_world 1
     (fix_prompt ''SELECT n FROM olist WHERE c = 'brinquedos' AND d < DATE '2018-09-03';''
        ''Binder Error'') =
     answer (JStr ''SELECT 1 FROM olist WHERE c = 'toys' AND d < CURRENT_DATE;'') \<and>
   queries (snd (run_analysis repair_world True ''q'' start)) =
     [''SELECT n FROM olist WHERE c = 'brinquedos' AND d < DATE '2018-09-03';'',
      ''SELECT 1 FROM olist WHERE c = 'toys' AND d < DATE '2018-09-03';'']"
proof -
  let ?t0 = "''```sql\<newline>SELECT n FROM olist WHERE c = 'toys' AND d < CURRENT_DATE;\<newline>```''"
  let ?t1 = "''SELECT 1 FROM olist WHERE c = 'toys' AND d < CURRENT_DATE;''"
  let ?q1 = "''SELECT n FROM olist WHERE c = 'brinquedos' AND d < DATE '2018-09-03';''"
  let ?q2 = "''SELECT 1 FROM olist WHERE c = 'toys' AND d < DATE '2018-09-03';''"
  obtain r0 where r0: "answer (JStr ?t0) = Response 200 (Some r0)" by (simp add: answer_def)
  obtain r1 where r1: "answer (JStr ?t1) = Response 200 (Some r1)" by (simp add: answer_def)
  have m: "max_date repair_world = ''2018-09-03''" by (simp add: repair_world_def scripted_def)
  have s: "prompts start = []" "queries start = []" "history start = []"
    by (simp_all add: start_def)
  have a0: "requests_post repair_world 0 p = answer (JStr ?t0)" for p
    by (simp add: repair_world_def scripted_def)
  have a1: "requests_post repair_world 1 p = answer (JStr ?t1)" for p
    by (simp add: repair_world_def scripted_def)
  have x: "duckdb_execute repair_world 0 q = Inl ''Binder Error''" for q
    by (simp add: repair_world_def scripted_def)
  have h1: "''q'' \<noteq> []" by simp
  have h2: "requests_post repair_world (length (prompts start))
      (generate_prompt ''q'' (str_join ''\<newline>'' (map (\<lambda>h. ''User: '' @ user h) (history start)))) =
      Response 200 (Some r0)"
    using a0 r0 by (simp add: s)
  have h3: "extract_text r0 = Inr (JStr ?t0)" using r0 by (rule extract_text_answer)
  have h4: "clean_text ?t0 \<noteq> []" by (simp add: repair_world_texts)
  have h5: "duckdb_execute repair_world (length (queries start))
      (date_sub (max_date repair_world) (category_sub (clean_text ?t0))) = Inl ''Binder Error''"
    by (simp add: s x)
  have h6: "requests_post repair_world (Suc (length (prompts start)))
      (fix_prompt (date_sub (max_date repair_world) (category_sub (clean_text ?t0)))
         ''Binder Error'') = Response 200 (Some r1)"
    using a1 r1 by (simp add: s)
  have h7: "extract_text r1 = Inr (JStr ?t1)" using r1 by (rule extract_text_answer)
  have h8: "date_sub (max_date repair_world) (clean_text ?t1) \<noteq> []"
    by (simp add: m repair_world_texts)
  from repair_substitutions [OF h1 h2 h3 h4 h5 h6 h7 h8]
  have "queries (snd (run_analysis repair_world True ''q'' start)) = [?q1, ?q2]"
    by (simp add: s m repair_world_texts)
  with a0 a1 x show ?thesis by simp
qed

text \<open>
  C10. In a turn whose generated SQL fails in the engine, the prompt sent next is the
  repair prompt built from the text that was executed, that is the sanitized model
  output after the category and the date substitution, and that text stands in the
  prompt. The date substitution changes nothing in a text without the placeholder, so
  \<open>fix_sql\<close> returns the sanitized repair text as it is unless that text contains
  \<open>CURRENT_DATE\<close>.
\<close>

theorem repair_prompt_text:
  assumes "uq \<noteq> []"
    and "requests_post e (length (prompts s))
           (generate_prompt uq (str_join ''\<newline>'' (map (\<lambda>h. ''User: '' @ user h) (history s)))) =
             Response status (Some res)"
    and "extract_text res = Inr (JStr text)"
    and "clean_text text \<noteq> []"
    and "duckdb_execute e (length (queries s))
           (date_sub (max_date e) (category_sub (clean_text text))) = Inl err"
  shows "prefix
           (prompts s @
            [generate_prompt uq (str_join ''\<newline>'' (map (\<lambda>h. ''User: '' @ user h) (history s))),
             fix_prompt (date_sub (max_date e) (category_sub (clean_text text))) err])
           (prompts (snd (run_analysis e True uq s))) \<and>
         str_contains (date_sub (max_date e) (category_sub (clean_text text)))
           (fix_prompt (date_sub (max_date e) (category_sub (clean_text text))) err) \<and>
         (\<not> str_contains placeholder t \<longrightarrow> date_sub (max_date e) t = t) \<and>
         (requests_post e (length (prompts sf)) (fix_prompt q err') = Response status' (Some res') \<and>
          extract_text res' = Inr (JStr text') \<and> \<not> str_contains placeholder (clean_text text') \<longrightarrow>
            fst (fix_sql e q err' sf) = Inr (Some (clean_text text')))"
proof -
  from run_analysis_generated [OF assms(1-4)] obtain s1 where
    s1: "prompts s1 = prompts s @
       [generate_prompt uq (str_join ''\<newline>'' (map (\<lambda>h. ''User: '' @ user h) (history s)))]"
      "queries s1 = queries s" and
    run: "run_analysis e True uq s =
       (case execute_with_repair e (clean_text text) s1 of
          (Inl x, s2) \<Rightarrow> (Inl x, s2)
        | (Inr result, s2) \<Rightarrow> show_result e result uq s2)"
    by blast
  have "prompts (snd (execute_with_repair e (clean_text text) s1)) =
      prompts s1 @ [fix_prompt (date_sub (max_date e) (category_sub (clean_text text))) err]"
    using assms(5) by (intro execute_with_repair_failing) (simp add: s1)
  with run_analysis_after_repair [OF run] s1 have 1: "prefix
           (prompts s @
            [generate_prompt uq (str_join ''\<newline>'' (map (\<lambda>h. ''User: '' @ user h) (history s))),
             fix_prompt (date_sub (max_date e) (category_sub (clean_text text))) err])
           (prompts (snd (run_analysis e True uq s)))"
    by simp
  have 2: "str_contains q' (fix_prompt q' err)" for q'
    unfolding str_contains_sublist fix_prompt_def by (rule sublist_appendI)
  have 3: "\<not> str_contains placeholder t' \<Longrightarrow> date_sub (max_date e) t' = t'" for t'
    unfolding date_sub_def str_contains_sublist
    by (rule str_replace_id) (simp_all add: placeholder_def)
  have 4: "fst (fix_sql e q err' sf) = Inr (Some (clean_text text'))"
    if "requests_post e (length (prompts sf)) (fix_prompt q err') = Response status' (Some res')"
      "extract_text res' = Inr (JStr text')" "\<not> str_contains placeholder (clean_text text')"
    using fix_sql_text [OF that(1,2)] 3 [OF that(3)] by simp
  from 1 2 3 4 show ?thesis by blast
qed

theorem repair_prompt_text_witness:
  "requests_post repair_world 0 (generate_prompt ''q'' []) =
     answer (JStr ''```sql\<newline>SELECT n FROM olist WHERE c = 'toys' AND d < CURRENT_DATE;\<newline>```'') \<and>
   duckdb_execute repair_world 0
     ''SELECT n FROM olist WHERE c = 'brinquedos' AND d < DATE '2018-09-03';'' =
     Inl ''Binder Error'' \<and>
   prompts (snd (run_analysis repair_world True ''q'' start)) =
     [generate_prompt ''q'' [],
      fix_prompt ''SELECT n FROM olist WHERE c = 'brinquedos' AND d < DATE '2018-09-03';''
        ''Binder Error''] \<and>
   \<not> str_contains placeholder ''SELECT 1 FROM olist'' \<and>
   date_sub (max_date repair_world) ''SELECT 1 FROM olist'' = ''SELECT 1 FROM olist'' \<and>
   requests_post repair_world 2 (fix_prompt ''SELECT 1'' ''Binder Error'') =
     answer (JStr ''SELECT 1 FROM olist'') \<and>
   fst (fix_sql repair_world ''SELECT 1'' ''Binder Error''
          (snd (run_analysis repair_world True ''q'' start))) =
     Inr (Some ''SELECT 1 FROM olist'')"
proof -
  let ?t0 = "''```sql\<newline>SELECT n FROM olist WHERE c = 'toys' AND d < CURRENT_DATE;\<newline>```''"
  let ?q1 = "''SELECT n FROM olist WHERE c = 'brinquedos' AND d < DATE '2018-09-03';''"
  let ?sf = "snd (run_analysis repair_world True ''q'' start)"
  obtain r0 where r0: "answer (JStr ?t0) = Response 200 (Some r0)" by (simp add: answer_def)
  have m: "max_date repair_world = ''2018-09-03''" by (simp add: repair_world_def scripted_def)
  have s: "prompts start = []" "queries start = []" "history start = []"
    by (simp_all add: start_def)
  have a0: "requests_post repair_world 0 p = answer (JStr ?t0)" for p
    by (simp add: repair_world_def scripted_def)
  have x: "duckdb_execute repair_world 0 q = Inl ''Binder Error''" for q
    by (simp add: repair_world_def scripted_def)
  have h1: "''q'' \<noteq> []" by simp
  have h2: "requests_post repair_world (length (prompts start))
      (generate_prompt ''q'' (str_join ''\<newline>'' (map (\<lambda>h. ''User: '' @ user h) (history start)))) =
      Response 200 (Some r0)"
    using a0 r0 by (simp add: s)
  have h3: "extract_text r0 = Inr (JStr ?t0)" using r0 by (rule extract_text_answer)
  have h4: "clean_text ?t0 \<noteq> []" by (simp add: repair_world_texts)
  have h5: "duckdb_execute repair_world (length (queries start))
      (date_sub (max_date repair_world) (category_sub (clean_text ?t0))) = Inl ''Binder Error''"
    by (simp add: s x)
  obtain r2 where r2: "answer (JStr ''SELECT 1 FROM olist'') = Response 200 (Some r2)"
    by (simp add: answer_def)
  have l: "length (prompts ?sf) = 2" by (simp add: repair_world_run)
  have a2: "requests_post repair_world 2 p = answer (JStr ''SELECT 1 FROM olist'')" for p
    by (simp add: repair_world_def scripted_def)
  have c: "clean_text ''SELECT 1 FROM olist'' = ''SELECT 1 FROM olist''"
    by (simp add: run_defs)
  have n1: "\<not> str_contains placeholder ''SELECT 1 FROM olist''"
    by (simp add: placeholder_def)
  have n2: "\<not> str_contains placeholder (clean_text ''SELECT 1 FROM olist'')"
    by (simp add: c placeholder_def)
  have e2: "extract_text r2 = Inr (JStr ''SELECT 1 FROM olist'')"
    using r2 by (rule extract_text_answer)
  have b': "requests_post repair_world (length (prompts ?sf))
      (fix_prompt ''SELECT 1'' ''Binder Error'') = Response 200 (Some r2)"
    by (simp only: l a2 r2)
  note t = repair_prompt_text [OF h1 h2 h3 h4 h5, where t = "''SELECT 1 FROM olist''"
      and sf = ?sf and q = "''SELECT 1''" and err' = "''Binder Error''" and status' = 200
      and res' = r2 and text' = "''SELECT 1 FROM olist''"]
  from t n1 have d: "date_sub (max_date repair_world) ''SELECT 1 FROM olist'' = ''SELECT 1 FROM olist''"
    by blast
  from t b' e2 n2
  have f: "fst (fix_sql repair_world ''SELECT 1'' ''Binder Error'' ?sf) =
      Inr (Some (clean_text ''SELECT 1 FROM olist''))"
    by blast
  have p: "prompts ?sf = [generate_prompt ''q'' [], fix_prompt ?q1 ''Binder Error'']"
    by (simp add: repair_world_run)
  show ?thesis using a0 x p n1 d a2 f [unfolded c] by simp
qed

end
